theory Spec2Isabelle
  imports Complex_Main "HOL-Library.Multiset" "HOL-Library.Log_Nat"
begin

section \<open>Data model\<close>

text \<open>
  The simulator identifies a grid cell by the string \<^verbatim>\<open>`${x}-${y}`\<close> that \<^verbatim>\<open>getCellId\<close>
  builds from two integers.  Two pairs of integers give the same string only when they
  are equal, so a cell id is modelled by the pair that \<^verbatim>\<open>getCellId\<close> was given, and
  \<^verbatim>\<open>getCellId\<close> is the pairing.

  \<^verbatim>\<open>parseCellId\<close> reads the first two pieces of \<^verbatim>\<open>id.split('-').map(Number)\<close>.  For
  coordinates that are not negative these are the coordinates.  The decimal form of a
  negative number begins with the separator itself: for \<open>x < 0\<close> the string starts with
  \<^verbatim>\<open>-\<close>, the first piece is empty (\<^verbatim>\<open>Number('')\<close> is \<open>0\<close>) and the second piece is \<open>\<bar>x\<bar>\<close>;
  for \<open>0 \<le> x\<close> and \<open>y < 0\<close> the two numbers are separated by \<^verbatim>\<open>--\<close>, and the second
  piece is empty.
\<close>

type_synonym cell = "int \<times> int"

definition getCellId :: "int \<Rightarrow> int \<Rightarrow> cell" where
  "getCellId x y = (x, y)"

definition parseCellId :: "cell \<Rightarrow> int \<times> int" where
  "parseCellId cid =
     (case cid of (x, y) \<Rightarrow>
        if x < 0 then (0, - x) else if y < 0 then (x, 0) else (x, y))"

datatype CellType = Empty | Track | Station

record Cell =
  c_x :: int
  c_y :: int
  c_type :: CellType
  stationName :: "string option"
  c_id :: cell

datatype TrainState = Moving | Waiting | Arrived | Dwelling

datatype DispatchType = Manual | Schedule | Batch

text \<open>
  A train as \<^verbatim>\<open>interface Train\<close> declares it.  \<^verbatim>\<open>currentPathIndex\<close>, \<^verbatim>\<open>waitingTime\<close> and
  \<^verbatim>\<open>dwellRemaining\<close> only ever hold counts and are natural numbers; \<^verbatim>\<open>progress\<close> is a
  JavaScript number, modelled as the rational it denotes.
  The fields \<^verbatim>\<open>id\<close>, \<^verbatim>\<open>name\<close> and \<^verbatim>\<open>type\<close> carry a prefix because their names are taken.
\<close>

record Train =
  t_id :: string
  t_name :: string
  fromId :: cell
  toId :: cell
  path :: "cell list"
  currentPathIndex :: nat
  progress :: rat
  state :: TrainState
  priority :: int
  t_type :: DispatchType
  color :: string
  waitingTime :: nat
  isCyclic :: bool
  dwellRemaining :: nat

section \<open>The binary min-heap\<close>

text \<open>
  \<^verbatim>\<open>class MinHeap<T extends { f: number }>\<close> keeps its items in the array \<^verbatim>\<open>heap\<close>.
  The model is the list of items; the key \<^verbatim>\<open>.f\<close> is the parameter \<open>fk\<close>.  \<^verbatim>\<open>parent\<close> is
  only evaluated for \<open>i > 0\<close> (the loop guard of \<^verbatim>\<open>siftUp\<close>), where
  \<^verbatim>\<open>Math.floor((i - 1) / 2)\<close> is the natural-number quotient.  Every index the code reads
  is in range, so no access is out of bounds.  The keys are numbers compared with
  \<^verbatim>\<open><\<close> and \<^verbatim>\<open>>\<close>; the model takes them from any linear order.
\<close>

definition parent :: "nat \<Rightarrow> nat" where
  "parent i = (i - 1) div 2"

definition leftChild :: "nat \<Rightarrow> nat" where
  "leftChild i = 2 * i + 1"

definition rightChild :: "nat \<Rightarrow> nat" where
  "rightChild i = 2 * i + 2"

definition swap :: "'a list \<Rightarrow> nat \<Rightarrow> nat \<Rightarrow> 'a list" where
  "swap heap i j = heap[i := heap ! j, j := heap ! i]"

function siftUp :: "('a \<Rightarrow> 'k::linorder) \<Rightarrow> 'a list \<Rightarrow> nat \<Rightarrow> 'a list" where
  "siftUp fk heap i =
     (if i > 0 \<and> fk (heap ! parent i) > fk (heap ! i)
      then siftUp fk (swap heap (parent i) i) (parent i)
      else heap)"
  by pat_completeness auto
termination
  by (relation "measure (\<lambda>(fk, heap, i). i)") (auto simp: parent_def)

function siftDown :: "('a \<Rightarrow> 'k::linorder) \<Rightarrow> 'a list \<Rightarrow> nat \<Rightarrow> 'a list" where
  "siftDown fk heap i =
     (let left = leftChild i;
          right = rightChild i;
          minIndex = (if left < length heap \<and> fk (heap ! left) < fk (heap ! i) then left else i);
          minIndex = (if right < length heap \<and> fk (heap ! right) < fk (heap ! minIndex)
                      then right else minIndex)
      in if i \<noteq> minIndex then siftDown fk (swap heap i minIndex) minIndex else heap)"
  by pat_completeness auto
termination
  by (relation "measure (\<lambda>(fk, heap, i). length heap - i)")
     (auto simp: leftChild_def rightChild_def swap_def Let_def split: if_splits)

definition push :: "('a \<Rightarrow> 'k::linorder) \<Rightarrow> 'a list \<Rightarrow> 'a \<Rightarrow> 'a list" where
  "push fk heap item = (let heap = heap @ [item] in siftUp fk heap (length heap - 1))"

definition pop :: "('a \<Rightarrow> 'k::linorder) \<Rightarrow> 'a list \<Rightarrow> 'a option \<times> 'a list" where
  "pop fk heap =
     (if length heap = 0 then (None, heap)
      else if length heap = 1 then (Some (last heap), butlast heap)
      else let result = heap ! 0;
               heap = (butlast heap)[0 := last heap]
           in (Some result, siftDown fk heap 0))"

definition isEmpty :: "'a list \<Rightarrow> bool" where
  "isEmpty heap = (length heap = 0)"

text \<open>The heap invariant of the contract: no item is smaller than its parent.\<close>

definition heap_inv :: "('a \<Rightarrow> 'k::linorder) \<Rightarrow> 'a list \<Rightarrow> bool" where
  "heap_inv fk heap = (\<forall>i. 0 < i \<and> i < length heap \<longrightarrow> fk (heap ! parent i) \<le> fk (heap ! i))"

declare siftUp.simps [simp del] siftDown.simps [simp del]

lemma parent_less: "0 < i \<Longrightarrow> parent i < i"
  by (simp add: parent_def)

lemma length_swap [simp]: "length (swap h i j) = length h"
  by (simp add: swap_def)

lemma mset_swap_heap: "i < length h \<Longrightarrow> j < length h \<Longrightarrow> mset (swap h i j) = mset h"
  unfolding swap_def by (metis mset_swap)

lemma nth_swap:
  "i < length h \<Longrightarrow> j < length h \<Longrightarrow> k < length h \<Longrightarrow>
   swap h i j ! k = (if k = j then h ! i else if k = i then h ! j else h ! k)"
  by (auto simp: swap_def nth_list_update)

lemma length_siftUp [simp]: "length (siftUp fk h i) = length h"
  by (induction fk h i rule: siftUp.induct) (subst siftUp.simps, simp)

lemma mset_siftUp: "i < length h \<Longrightarrow> mset (siftUp fk h i) = mset h"
proof (induction fk h i rule: siftUp.induct)
  case (1 fk heap i)
  show ?case
  proof (cases "i > 0 \<and> fk (heap ! parent i) > fk (heap ! i)")
    case True
    then have p: "parent i < length heap" using 1(2) parent_less[of i] by simp
    then have "mset (siftUp fk (swap heap (parent i) i) (parent i)) = mset (swap heap (parent i) i)"
      using 1(1)[OF True] by simp
    then show ?thesis using True p 1(2) by (subst siftUp.simps) (simp add: mset_swap_heap)
  next
    case False
    then show ?thesis by (subst siftUp.simps) auto
  qed
qed

lemma siftUp_inv:
  assumes "i < length h"
    and "\<forall>j. 0 < j \<and> j < length h \<and> j \<noteq> i \<longrightarrow> fk (h ! parent j) \<le> fk (h ! j)"
    and "\<forall>j. 0 < j \<and> j < length h \<and> parent j = i \<and> 0 < i \<longrightarrow> fk (h ! parent i) \<le> fk (h ! j)"
  shows "heap_inv fk (siftUp fk h i)"
  using assms
proof (induction fk h i rule: siftUp.induct)
  case (1 fk heap i)
  show ?case
  proof (cases "i > 0 \<and> fk (heap ! parent i) > fk (heap ! i)")
    case False
    then have "siftUp fk heap i = heap" by (subst siftUp.simps) auto
    moreover have "heap_inv fk heap"
      unfolding heap_inv_def using 1(3) False by (metis not_le_imp_less)
    ultimately show ?thesis by simp
  next
    case True
    let ?p = "parent i"
    let ?h = "swap heap ?p i"
    have pi: "?p < i" using True parent_less by simp
    have pl: "?p < length heap" using pi 1(2) by simp
    have nth: "\<And>k. k < length heap \<Longrightarrow> ?h ! k = (if k = i then heap ! ?p else if k = ?p then heap ! i else heap ! k)"
      using nth_swap[OF pl 1(2)] by simp
    have a: "\<forall>j. 0 < j \<and> j < length ?h \<and> j \<noteq> ?p \<longrightarrow> fk (?h ! parent j) \<le> fk (?h ! j)"
    proof (intro allI impI)
      fix j assume j: "0 < j \<and> j < length ?h \<and> j \<noteq> ?p"
      then have jl: "j < length heap" and pjl: "parent j < length heap"
        using parent_less[of j] by auto
      show "fk (?h ! parent j) \<le> fk (?h ! j)"
      proof (cases "j = i")
        case True
        then show ?thesis using nth[OF jl] nth[OF pjl] \<open>i > 0 \<and> fk (heap ! parent i) > fk (heap ! i)\<close> pi by auto
      next
        case ji: False
        then have hj: "?h ! j = heap ! j" using nth[OF jl] j by simp
        have base: "fk (heap ! parent j) \<le> fk (heap ! j)" using 1(3) j ji by simp
        show ?thesis
        proof (cases "parent j = i")
          case True
          then have "fk (heap ! ?p) \<le> fk (heap ! j)" using 1(4) j \<open>i > 0 \<and> fk (heap ! parent i) > fk (heap ! i)\<close> by simp
          then show ?thesis using nth[OF pjl] True hj by simp
        next
          case False
          then show ?thesis
            using nth[OF pjl] hj base \<open>i > 0 \<and> fk (heap ! parent i) > fk (heap ! i)\<close>
            by (auto split: if_splits)
        qed
      qed
    qed
    have b: "\<forall>j. 0 < j \<and> j < length ?h \<and> parent j = ?p \<and> 0 < ?p \<longrightarrow> fk (?h ! parent ?p) \<le> fk (?h ! j)"
    proof (intro allI impI)
      fix j assume j: "0 < j \<and> j < length ?h \<and> parent j = ?p \<and> 0 < ?p"
      then have jl: "j < length heap" by simp
      have ppl: "parent ?p < ?p" using j parent_less by simp
      then have ppl': "parent ?p < length heap" using pl by simp
      have g: "fk (heap ! parent ?p) \<le> fk (heap ! ?p)" using 1(3) j pl pi by simp
      have hpp: "?h ! parent ?p = heap ! parent ?p" using nth[OF ppl'] ppl pi by simp
      show "fk (?h ! parent ?p) \<le> fk (?h ! j)"
      proof (cases "j = i")
        case True
        then show ?thesis using nth[OF jl] hpp g by simp
      next
        case False
        then have "fk (heap ! ?p) \<le> fk (heap ! j)" using 1(3) j by (metis length_swap)
        moreover have "j \<noteq> ?p" using j parent_less[of j] by auto
        ultimately show ?thesis using nth[OF jl] hpp g False by simp
      qed
    qed
    have "heap_inv fk (siftUp fk ?h ?p)"
      using 1(1)[OF True] pl a b by simp
    then show ?thesis using True by (subst siftUp.simps) simp
  qed
qed


lemma length_siftDown [simp]: "length (siftDown fk h i) = length h"
  by (induction fk h i rule: siftDown.induct) (subst siftDown.simps, simp add: Let_def)

lemma parent_child: "0 < j \<Longrightarrow> parent j = i \<longleftrightarrow> (j = leftChild i \<or> j = rightChild i)"
  unfolding parent_def leftChild_def rightChild_def by presburger

definition minChild :: "('a \<Rightarrow> 'k::linorder) \<Rightarrow> 'a list \<Rightarrow> nat \<Rightarrow> nat" where
  "minChild fk heap i =
     (let left = leftChild i;
          right = rightChild i;
          minIndex = (if left < length heap \<and> fk (heap ! left) < fk (heap ! i) then left else i);
          minIndex = (if right < length heap \<and> fk (heap ! right) < fk (heap ! minIndex)
                      then right else minIndex)
      in minIndex)"

lemma siftDown_unfold:
  "siftDown fk heap i =
     (if i \<noteq> minChild fk heap i
      then siftDown fk (swap heap i (minChild fk heap i)) (minChild fk heap i) else heap)"
  by (subst siftDown.simps) (simp add: minChild_def Let_def)

lemma minChild_cases:
  "minChild fk h i = i \<or> minChild fk h i = leftChild i \<or> minChild fk h i = rightChild i"
  by (simp add: minChild_def Let_def)

lemma minChild_le:
  "fk (h ! minChild fk h i) \<le> fk (h ! i)"
  "leftChild i < length h \<Longrightarrow> fk (h ! minChild fk h i) \<le> fk (h ! leftChild i)"
  "rightChild i < length h \<Longrightarrow> fk (h ! minChild fk h i) \<le> fk (h ! rightChild i)"
  by (auto simp: minChild_def Let_def)

lemma minChild_bound: "minChild fk h i \<noteq> i \<Longrightarrow> i < minChild fk h i \<and> minChild fk h i < length h"
  by (auto simp: minChild_def Let_def leftChild_def rightChild_def split: if_splits)

lemma minChild_lt: "minChild fk h i \<noteq> i \<Longrightarrow> fk (h ! minChild fk h i) < fk (h ! i)"
  by (auto simp: minChild_def Let_def split: if_splits)

lemma mset_siftDown: "i < length h \<Longrightarrow> mset (siftDown fk h i) = mset h"
proof (induction "length h - i" arbitrary: h i rule: less_induct)
  case less
  show ?case
  proof (cases "minChild fk h i = i")
    case True
    then show ?thesis by (subst siftDown_unfold) simp
  next
    case False
    let ?m = "minChild fk h i"
    have b: "i < ?m \<and> ?m < length h" using minChild_bound[OF False] .
    have d: "length (swap h i ?m) - ?m < length h - i" using b less(2) by (simp add: diff_less_mono2)
    have "mset (siftDown fk (swap h i ?m) ?m) = mset (swap h i ?m)"
      using less(1)[OF d] b by simp
    then show ?thesis using False b less(2) by (subst siftDown_unfold) (simp add: mset_swap_heap)
  qed
qed

lemma siftDown_inv:
  assumes "\<forall>j. 0 < j \<and> j < length h \<and> parent j \<noteq> i \<longrightarrow> fk (h ! parent j) \<le> fk (h ! j)"
    and "\<forall>j. 0 < j \<and> j < length h \<and> parent j = i \<and> 0 < i \<longrightarrow> fk (h ! parent i) \<le> fk (h ! j)"
  shows "heap_inv fk (siftDown fk h i)"
  using assms
proof (induction "length h - i" arbitrary: h i rule: less_induct)
  case less
  let ?m = "minChild fk h i"
  show ?case
  proof (cases "?m = i")
    case True
    have "heap_inv fk h"
      unfolding heap_inv_def
    proof (intro allI impI)
      fix j assume j: "0 < j \<and> j < length h"
      show "fk (h ! parent j) \<le> fk (h ! j)"
      proof (cases "parent j = i")
        case False
        then show ?thesis using less(2) j by simp
      next
        case pj: True
        then have "j = leftChild i \<or> j = rightChild i" using parent_child j by blast
        then show ?thesis using minChild_le(2,3)[of i h fk] True j pj by auto
      qed
    qed
    then show ?thesis using True by (subst siftDown_unfold) simp
  next
    case False
    let ?h = "swap h i ?m"
    have b: "i < ?m" "?m < length h" using minChild_bound[OF False] by auto
    have il: "i < length h" using b by simp
    have pm: "parent ?m = i" using minChild_cases[of fk h i] False parent_child[of ?m i] b by auto
    have lt: "fk (h ! ?m) < fk (h ! i)" using minChild_lt[OF False] .
    have nth: "\<And>k. k < length h \<Longrightarrow> ?h ! k = (if k = ?m then h ! i else if k = i then h ! ?m else h ! k)"
      using nth_swap[OF il b(2)] by simp
    have a: "\<forall>j. 0 < j \<and> j < length ?h \<and> parent j \<noteq> ?m \<longrightarrow> fk (?h ! parent j) \<le> fk (?h ! j)"
    proof (intro allI impI)
      fix j assume j: "0 < j \<and> j < length ?h \<and> parent j \<noteq> ?m"
      then have jl: "j < length h" and pjl: "parent j < length h" and pjj: "parent j < j"
        using parent_less[of j] by auto
      show "fk (?h ! parent j) \<le> fk (?h ! j)"
      proof (cases "parent j = i")
        case True
        then have c: "j = leftChild i \<or> j = rightChild i" using parent_child j by blast
        have hp: "?h ! parent j = h ! ?m" using nth[OF pjl] True b by simp
        show ?thesis
        proof (cases "j = ?m")
          case True
          then show ?thesis using hp nth[OF jl] lt by simp
        next
          case False
          then have "?h ! j = h ! j" using nth[OF jl] True pjj by auto
          moreover have "fk (h ! ?m) \<le> fk (h ! j)" using c minChild_le(2,3)[of i h fk] jl by auto
          ultimately show ?thesis using hp by simp
        qed
      next
        case npi: False
        show ?thesis
        proof (cases "j = i")
          case True
          then have "0 < i" using j by simp
          then have "fk (h ! parent i) \<le> fk (h ! ?m)" using less(3) pm b by simp
          moreover have "?h ! parent j = h ! parent i" using nth[OF pjl] True pjj b by auto
          moreover have "?h ! j = h ! ?m" using nth[OF jl] True b by simp
          ultimately show ?thesis by simp
        next
          case False
          have "j \<noteq> ?m" using pm npi by auto
          then have "?h ! j = h ! j" using nth[OF jl] False by simp
          moreover have "?h ! parent j = h ! parent j" using nth[OF pjl] npi j by simp
          moreover have "fk (h ! parent j) \<le> fk (h ! j)" using less(2) j npi by simp
          ultimately show ?thesis by simp
        qed
      qed
    qed
    have c: "\<forall>j. 0 < j \<and> j < length ?h \<and> parent j = ?m \<and> 0 < ?m \<longrightarrow> fk (?h ! parent ?m) \<le> fk (?h ! j)"
    proof (intro allI impI)
      fix j assume j: "0 < j \<and> j < length ?h \<and> parent j = ?m \<and> 0 < ?m"
      then have jl: "j < length h" and mj: "?m < j" using parent_less[of j] by auto
      have "fk (h ! ?m) \<le> fk (h ! j)" using less(2) j b by (metis length_swap less_not_refl)
      moreover have "?h ! j = h ! j" using nth[OF jl] mj b by simp
      moreover have "?h ! parent ?m = h ! ?m" using nth[OF il] pm b by simp
      ultimately show "fk (?h ! parent ?m) \<le> fk (?h ! j)" by simp
    qed
    have d: "length ?h - ?m < length h - i" using b by simp
    have "heap_inv fk (siftDown fk ?h ?m)"
      using less(1)[OF d a c] .
    then show ?thesis using False by (subst siftDown_unfold) simp
  qed
qed

lemma heap_inv_root_min:
  assumes "heap_inv fk h" and "i < length h"
  shows "fk (h ! 0) \<le> fk (h ! i)"
  using assms(2)
proof (induction i rule: less_induct)
  case (less i)
  show ?case
  proof (cases "i = 0")
    case True
    then show ?thesis by simp
  next
    case False
    then have p: "parent i < i" using parent_less by simp
    have "fk (h ! 0) \<le> fk (h ! parent i)" using less p by simp
    moreover have "fk (h ! parent i) \<le> fk (h ! i)"
      using assms(1) False less(2) by (simp add: heap_inv_def)
    ultimately show ?thesis by simp
  qed
qed

lemma push_inv:
  assumes h: "heap_inv fk h"
  shows "heap_inv fk (push fk h x)"
proof -
  let ?h = "h @ [x]"
  have l: "length ?h - 1 = length h" by simp
  have a: "\<forall>j. 0 < j \<and> j < length ?h \<and> j \<noteq> length h \<longrightarrow> fk (?h ! parent j) \<le> fk (?h ! j)"
  proof (intro allI impI)
    fix j assume j: "0 < j \<and> j < length ?h \<and> j \<noteq> length h"
    then have jl: "j < length h" by simp
    then have pl: "parent j < length h" using parent_less[of j] j by simp
    have "fk (h ! parent j) \<le> fk (h ! j)" using h j jl unfolding heap_inv_def by blast
    then show "fk (?h ! parent j) \<le> fk (?h ! j)"
      using jl pl by (simp add: nth_append)
  qed
  have b: "\<forall>j. 0 < j \<and> j < length ?h \<and> parent j = length h \<and> 0 < length h \<longrightarrow>
             fk (?h ! parent (length h)) \<le> fk (?h ! j)"
  proof (intro allI impI)
    fix j assume j: "0 < j \<and> j < length ?h \<and> parent j = length h \<and> 0 < length h"
    then have "parent j < j" using parent_less by blast
    then have False using j by simp
    then show "fk (?h ! parent (length h)) \<le> fk (?h ! j)" ..
  qed
  have "heap_inv fk (siftUp fk ?h (length h))"
    by (rule siftUp_inv[OF _ a b]) simp
  then show ?thesis unfolding push_def Let_def l .
qed

lemma mset_push: "mset (push fk h x) = add_mset x (mset h)"
  by (simp add: push_def Let_def mset_siftUp)

lemma pop_empty: "pop fk h = (None, h') \<longleftrightarrow> h = [] \<and> h' = []"
  by (auto simp: pop_def Let_def)

lemma pop_mset:
  assumes "pop fk h = (Some r, h')"
  shows "mset h = add_mset r (mset h')"
proof -
  have ne: "h \<noteq> []" using assms by (auto simp: pop_def)
  then obtain a t where h: "h = a # t" by (cases h) auto
  show ?thesis
  proof (cases "t = []")
    case True
    then show ?thesis using assms h by (simp add: pop_def)
  next
    case False
    let ?h2 = "(butlast h)[0 := last h]"
    have h2: "?h2 = last t # butlast t" using False h by simp
    have "length h \<noteq> 0" "length h \<noteq> 1" using False h by auto
    then have r: "r = a" and h': "h' = siftDown fk ?h2 0"
      using assms h by (auto simp: pop_def Let_def)
    have "mset t = mset (butlast t @ [last t])" using False by simp
    then have "mset ?h2 = mset t" unfolding h2 by simp
    moreover have "mset h' = mset ?h2" unfolding h' by (rule mset_siftDown) (simp add: h2)
    ultimately show ?thesis using r h by simp
  qed
qed

lemma pop_min:
  assumes "heap_inv fk h" and "pop fk h = (Some r, h')"
  shows "\<forall>x \<in> set h. fk r \<le> fk x"
proof -
  have ne: "h \<noteq> []" using assms(2) by (auto simp: pop_def)
  have "r = h ! 0" using assms(2) ne
    by (cases h) (auto simp: pop_def Let_def split: if_splits)
  then show ?thesis using heap_inv_root_min[OF assms(1)] by (auto simp: in_set_conv_nth)
qed

lemma pop_inv:
  assumes "heap_inv fk h" and "pop fk h = (r, h')"
  shows "heap_inv fk h'"
proof (cases "length h \<le> 1")
  case True
  then have "h' = []" using assms(2) by (cases h) (auto simp: pop_def)
  then show ?thesis by (simp add: heap_inv_def)
next
  case False
  let ?h2 = "(butlast h)[0 := last h]"
  have "length h \<noteq> 0" "length h \<noteq> 1" using False by auto
  then have h': "h' = siftDown fk ?h2 0" using assms(2) by (auto simp: pop_def Let_def)
  have "heap_inv fk (siftDown fk ?h2 0)"
  proof (rule siftDown_inv)
    show "\<forall>j. 0 < j \<and> j < length ?h2 \<and> parent j \<noteq> 0 \<longrightarrow> fk (?h2 ! parent j) \<le> fk (?h2 ! j)"
    proof (intro allI impI)
      fix j assume j: "0 < j \<and> j < length ?h2 \<and> parent j \<noteq> 0"
      then have jl: "j < length h - 1" by simp
      then have "parent j < length h - 1" using parent_less[of j] j by simp
      then have "?h2 ! parent j = h ! parent j" "?h2 ! j = h ! j"
        using j jl by (simp_all add: nth_butlast)
      moreover have "0 < j \<and> j < length h" using j jl by linarith
      then have "fk (h ! parent j) \<le> fk (h ! j)" using assms(1) unfolding heap_inv_def by blast
      ultimately show "fk (?h2 ! parent j) \<le> fk (?h2 ! j)" by simp
    qed
    show "\<forall>j. 0 < j \<and> j < length ?h2 \<and> parent j = 0 \<and> 0 < (0::nat) \<longrightarrow> fk (?h2 ! parent 0) \<le> fk (?h2 ! j)"
      by simp
  qed
  then show ?thesis using h' by simp
qed


text \<open>A run of the heap: any sequence of pushes and pops, applied from the left.\<close>

datatype 'a heap_op = Push 'a | Pop

fun run_ops :: "('a \<Rightarrow> 'k::linorder) \<Rightarrow> 'a heap_op list \<Rightarrow> 'a list \<Rightarrow> 'a list" where
  "run_ops fk [] heap = heap"
| "run_ops fk (Push item # ops) heap = run_ops fk ops (push fk heap item)"
| "run_ops fk (Pop # ops) heap = run_ops fk ops (snd (pop fk heap))"

lemma run_ops_inv: "heap_inv fk h \<Longrightarrow> heap_inv fk (run_ops fk ops h)"
proof (induction ops arbitrary: h)
  case Nil
  then show ?case by simp
next
  case (Cons op ops)
  show ?case
  proof (cases op)
    case (Push x)
    then show ?thesis using Cons.IH[OF push_inv[OF Cons.prems]] by simp
  next
    case Pop
    have "heap_inv fk (snd (pop fk h))"
      using pop_inv[OF Cons.prems, of "fst (pop fk h)" "snd (pop fk h)"] by simp
    then show ?thesis using Cons Pop by simp
  qed
qed

lemma pop_nonempty: "h \<noteq> [] \<Longrightarrow> \<exists>r h'. pop fk h = (Some r, h')"
  by (cases h) (auto simp: pop_def Let_def)

text \<open>
  Claim C6.  After any sequence of \<^verbatim>\<open>push\<close> and \<^verbatim>\<open>pop\<close> operations from the empty heap the
  array satisfies the heap invariant; a pop of a non-empty heap succeeds, returns an item
  of the heap whose key is minimal among all items of the heap, removes exactly that item
  and leaves a heap that satisfies the invariant again.
\<close>

theorem minheap_invariant_and_min:
  fixes fk :: "'a \<Rightarrow> 'k::linorder"
  shows "heap_inv fk (run_ops fk ops [])
    \<and> (run_ops fk ops [] \<noteq> [] \<longrightarrow> (\<exists>r h'. pop fk (run_ops fk ops []) = (Some r, h')))
    \<and> (\<forall>r h'. pop fk (run_ops fk ops []) = (Some r, h') \<longrightarrow>
          r \<in> set (run_ops fk ops []) \<and>
          (\<forall>x \<in> set (run_ops fk ops []). fk r \<le> fk x) \<and>
          mset (run_ops fk ops []) = add_mset r (mset h') \<and>
          heap_inv fk h')
    \<and> (isEmpty (run_ops fk ops []) \<longrightarrow> pop fk (run_ops fk ops []) = (None, []))"
proof -
  let ?h = "run_ops fk ops []"
  have inv: "heap_inv fk ?h" by (rule run_ops_inv) (simp add: heap_inv_def)
  have "\<And>r h'. pop fk ?h = (Some r, h') \<Longrightarrow>
          r \<in> set ?h \<and> (\<forall>x \<in> set ?h. fk r \<le> fk x) \<and> mset ?h = add_mset r (mset h') \<and> heap_inv fk h'"
  proof -
    fix r h' assume p: "pop fk ?h = (Some r, h')"
    have m: "mset ?h = add_mset r (mset h')" using pop_mset[OF p] .
    then have "r \<in># mset ?h" by simp
    then have "r \<in> set ?h" by simp
    then show "r \<in> set ?h \<and> (\<forall>x \<in> set ?h. fk r \<le> fk x) \<and> mset ?h = add_mset r (mset h') \<and> heap_inv fk h'"
      using pop_min[OF inv p] m pop_inv[OF inv p] by simp
  qed
  moreover have "isEmpty ?h \<longrightarrow> pop fk ?h = (None, [])" by (simp add: isEmpty_def pop_def)
  ultimately show ?thesis using inv pop_nonempty[of ?h fk] by blast
qed

theorem minheap_invariant_and_min_witness:
  "run_ops id [Push 5, Push 3, Push 8, Pop, Push 1, Push (4::int)] [] = [1, 4, 5, 8]
   \<and> pop id [1, 4, 5, 8 :: int] = (Some 1, [4, 8, 5])
   \<and> heap_inv id [1, 4, 5, 8 :: int]
   \<and> 1 \<in> set [1, 4, 5, 8 :: int]
   \<and> heap_inv id [4, 8, 5 :: int]"
proof -
  have r: "run_ops id [Push 5, Push 3, Push 8, Pop, Push 1, Push (4::int)] [] = [1, 4, 5, 8]"
    by code_simp
  have p: "pop id [1, 4, 5, 8 :: int] = (Some 1, [4, 8, 5])"
    by code_simp
  show ?thesis
    using minheap_invariant_and_min [of id "[Push 5, Push 3, Push 8, Pop, Push 1, Push (4::int)]"]
    unfolding r using p by simp
qed

section \<open>The A* pathfinder\<close>

text \<open>
  A search node as \<^verbatim>\<open>interface AStarNode\<close> declares it; \<^verbatim>\<open>parent\<close> is absent on the
  start node.  Costs are JavaScript numbers; every cost the search adds is a multiple of
  one half, which binary floating point represents exactly, so they are modelled as
  rationals.
\<close>

datatype AStarNode =
  AStarNode (n_id: cell) (n_x: int) (n_y: int) (n_g: rat) (n_h: rat) (n_f: rat)
    (n_parent: "AStarNode option")

definition getHeuristic :: "int \<Rightarrow> int \<Rightarrow> int \<Rightarrow> int \<Rightarrow> rat" where
  "getHeuristic x1 y1 x2 y2 = of_int (\<bar>x1 - x2\<bar> + \<bar>y1 - y2\<bar>)"

text \<open>
  The variables that \<^verbatim>\<open>findPathAStar\<close> fixes before its loop and that the loop body
  reads: the grid, the goal and its coordinates, the cells occupied by other trains and
  the cells next to them, the optional reservation set and the strict flag.
\<close>

record SearchCtx =
  currentGrid :: "cell \<rightharpoonup> Cell"
  endId :: cell
  endNode :: "int \<times> int"
  occupiedCells :: "cell set"
  nearCongestionCells :: "cell set"
  reservedCells :: "cell set option"
  strictMode :: bool

text \<open>The path is rebuilt by following the parent links back to the start.\<close>

fun reconstructPath :: "AStarNode \<Rightarrow> cell list" where
  "reconstructPath (AStarNode i x y g h f None) = [i]"
| "reconstructPath (AStarNode i x y g h f (Some p)) = reconstructPath p @ [i]"

text \<open>
  \<^verbatim>\<open>occupiedCells\<close> and \<^verbatim>\<open>nearCongestionCells\<close>: the present cell of every other train
  whose path has an entry at its index, and the four cells around it.
\<close>

definition trainCells :: "Train list \<Rightarrow> string option \<Rightarrow> cell set \<times> cell set" where
  "trainCells currentTrains ignoreTrainId =
     fold (\<lambda>t (occupied, near).
        if Some (t_id t) = ignoreTrainId then (occupied, near)
        else if currentPathIndex t \<ge> length (path t) then (occupied, near)
        else let tPos = path t ! currentPathIndex t;
                 pos = parseCellId tPos
             in (insert tPos occupied,
                 fold (\<lambda>(dx, dy) s. insert (getCellId (fst pos + dx) (snd pos + dy)) s)
                   [(0, 1), (0, -1), (1, 0), (-1, 0)] near))
       currentTrains ({}, {})"

text \<open>
  The body of the loop over the four neighbours.  \<^verbatim>\<open>traversable\<close> is the test on
  \<^verbatim>\<open>neighborCell\<close>, \<^verbatim>\<open>moveCost\<close> the weighted step cost and \<^verbatim>\<open>neighborNode\<close> the node
  that is pushed.
\<close>

definition isReserved :: "SearchCtx \<Rightarrow> cell \<Rightarrow> bool" where
  "isReserved ctx nid = (case reservedCells ctx of None \<Rightarrow> False | Some r \<Rightarrow> nid \<in> r)"

definition traversable :: "SearchCtx \<Rightarrow> cell \<Rightarrow> bool" where
  "traversable ctx nid =
     (case currentGrid ctx nid of
        None \<Rightarrow> False
      | Some neighborCell \<Rightarrow> c_type neighborCell = Track \<or> c_type neighborCell = Station)"

definition moveCost :: "SearchCtx \<Rightarrow> AStarNode \<Rightarrow> int \<Rightarrow> int \<Rightarrow> rat" where
  "moveCost ctx current nx ny =
     (let nid = getCellId nx ny;
          moveCost = 1;
          moveCost = (if nid \<in> occupiedCells ctx \<and> nid \<noteq> endId ctx then moveCost + 20 else moveCost);
          moveCost = (if \<not> strictMode ctx \<and> isReserved ctx nid \<and> nid \<noteq> endId ctx
                      then moveCost + 1000 else moveCost);
          moveCost = (if nid \<in> nearCongestionCells ctx then moveCost + 2 else moveCost);
          moveCost = (case n_parent current of
                        None \<Rightarrow> moveCost
                      | Some p \<Rightarrow>
                          let dx = nx - n_x current;
                              dy = ny - n_y current;
                              pdx = n_x current - n_x p;
                              pdy = n_y current - n_y p
                          in if dx \<noteq> pdx \<or> dy \<noteq> pdy then moveCost + 1 / 2 else moveCost)
      in moveCost)"

definition neighborNode :: "SearchCtx \<Rightarrow> AStarNode \<Rightarrow> int \<Rightarrow> int \<Rightarrow> AStarNode" where
  "neighborNode ctx current nx ny =
     (let newG = n_g current + moveCost ctx current nx ny;
          h = getHeuristic nx ny (fst (endNode ctx)) (snd (endNode ctx))
      in AStarNode (getCellId nx ny) nx ny newG h (newG + h) (Some current))"

definition visitNeighbor ::
  "SearchCtx \<Rightarrow> AStarNode \<Rightarrow> int \<times> int \<Rightarrow> AStarNode list \<times> (cell \<rightharpoonup> rat)
     \<Rightarrow> AStarNode list \<times> (cell \<rightharpoonup> rat)" where
  "visitNeighbor ctx current n st =
     (case n of (nx, ny) \<Rightarrow> case st of (openSet, visited) \<Rightarrow>
        let nid = getCellId nx ny in
        if traversable ctx nid then
          if strictMode ctx \<and> isReserved ctx nid \<and> nid \<noteq> endId ctx then (openSet, visited)
          else
            let newG = n_g current + moveCost ctx current nx ny in
            if (case visited nid of None \<Rightarrow> True | Some v \<Rightarrow> newG < v)
            then (push n_f openSet (neighborNode ctx current nx ny), visited(nid \<mapsto> newG))
            else (openSet, visited)
        else (openSet, visited))"

definition neighbors :: "AStarNode \<Rightarrow> (int \<times> int) list" where
  "neighbors current =
     [(n_x current, n_y current - 1), (n_x current, n_y current + 1),
      (n_x current - 1, n_y current), (n_x current + 1, n_y current)]"

text \<open>
  One iteration of \<^verbatim>\<open>while (!openSet.isEmpty())\<close>: the result is either the value the
  function returns (\<open>Inl\<close>) or the state for the next iteration (\<open>Inr\<close>).  The loop
  itself may fail to terminate on an infinite grid, so it is a partial function.
\<close>

definition astarStep ::
  "SearchCtx \<Rightarrow> AStarNode list \<times> (cell \<rightharpoonup> rat)
     \<Rightarrow> cell list option + AStarNode list \<times> (cell \<rightharpoonup> rat)" where
  "astarStep ctx st =
     (case st of (openSet, visited) \<Rightarrow>
        if isEmpty openSet then Inl None
        else
          (case pop n_f openSet of
             (None, openSet') \<Rightarrow> Inl None
           | (Some current, openSet') \<Rightarrow>
               if n_id current = endId ctx then Inl (Some (reconstructPath current))
               else if (case visited (n_id current) of None \<Rightarrow> False | Some v \<Rightarrow> v < n_g current)
               then Inr (openSet', visited)
               else Inr (fold (visitNeighbor ctx current) (neighbors current) (openSet', visited))))"

partial_function (option) astarLoop ::
  "SearchCtx \<Rightarrow> AStarNode list \<times> (cell \<rightharpoonup> rat) \<Rightarrow> cell list option option" where
  "astarLoop ctx st =
     (case astarStep ctx st of Inl r \<Rightarrow> Some r | Inr st' \<Rightarrow> astarLoop ctx st')"

declare astarLoop.simps [code]

definition startNodeOf :: "cell \<Rightarrow> cell \<Rightarrow> AStarNode" where
  "startNodeOf startId endId' =
     (let startNode = parseCellId startId;
          endNode = parseCellId endId';
          startH = getHeuristic (fst startNode) (snd startNode) (fst endNode) (snd endNode)
      in AStarNode startId (fst startNode) (snd startNode) 0 startH startH None)"

definition searchCtx ::
  "cell \<Rightarrow> (cell \<rightharpoonup> Cell) \<Rightarrow> Train list \<Rightarrow> string option \<Rightarrow> cell set option \<Rightarrow> bool
     \<Rightarrow> SearchCtx" where
  "searchCtx endId' grid currentTrains ignoreTrainId reserved strict =
     \<lparr> currentGrid = grid, endId = endId', endNode = parseCellId endId',
       occupiedCells = fst (trainCells currentTrains ignoreTrainId),
       nearCongestionCells = snd (trainCells currentTrains ignoreTrainId),
       reservedCells = reserved, strictMode = strict \<rparr>"

definition findPathAStar ::
  "cell \<Rightarrow> cell \<Rightarrow> (cell \<rightharpoonup> Cell) \<Rightarrow> Train list \<Rightarrow> string option \<Rightarrow> cell set option
     \<Rightarrow> bool \<Rightarrow> cell list option option" where
  "findPathAStar startId endId' grid currentTrains ignoreTrainId reserved strict =
     (if grid startId = None \<or> grid endId' = None then Some None
      else
        let ctx = searchCtx endId' grid currentTrains ignoreTrainId reserved strict;
            openSet = push n_f [] (startNodeOf startId endId');
            visited = [startId \<mapsto> 0]
        in astarLoop ctx (openSet, visited))"

lemma astarLoop_total:
  assumes "wf R" and "I st"
    and step: "\<And>s s'. I s \<Longrightarrow> astarStep ctx s = Inr s' \<Longrightarrow> I s' \<and> (s', s) \<in> R"
    and exit: "\<And>s r. I s \<Longrightarrow> astarStep ctx s = Inl r \<Longrightarrow> Q r"
  shows "\<exists>r. astarLoop ctx st = Some r \<and> Q r"
  using assms(1,2)
proof (induction st rule: wf_induct_rule)
  case (less s)
  show ?case
  proof (cases "astarStep ctx s")
    case (Inl r)
    then show ?thesis using exit[OF less(2)] by (subst astarLoop.simps) simp
  next
    case (Inr s')
    then have "I s'" "(s', s) \<in> R" using step[OF less(2)] by auto
    then show ?thesis using less(1) Inr by (subst astarLoop.simps) simp
  qed
qed

lemma astarLoop_partial:
  assumes "astarLoop ctx st = Some r" and "I st"
    and step: "\<And>s s'. I s \<Longrightarrow> astarStep ctx s = Inr s' \<Longrightarrow> I s'"
    and exit: "\<And>s r. I s \<Longrightarrow> astarStep ctx s = Inl r \<Longrightarrow> Q r"
  shows "Q r"
proof -
  have "ctx = ctx \<longrightarrow> I st \<longrightarrow> Q r"
  proof (rule astarLoop.raw_induct[where P = "\<lambda>c s r. c = ctx \<longrightarrow> I s \<longrightarrow> Q r", OF _ assms(1)])
    fix loop c s y
    assume IH: "\<And>c s y. loop c s = Some y \<Longrightarrow> c = ctx \<longrightarrow> I s \<longrightarrow> Q y"
      and eq: "(case astarStep c s of Inl r \<Rightarrow> Some r | Inr s' \<Rightarrow> loop c s') = Some y"
    show "c = ctx \<longrightarrow> I s \<longrightarrow> Q y"
    proof (intro impI)
      assume c: "c = ctx" and i: "I s"
      show "Q y"
      proof (cases "astarStep ctx s")
        case (Inl r')
        then show ?thesis using eq c exit[OF i] by simp
      next
        case (Inr s')
        then have "loop ctx s' = Some y" using eq c by simp
        moreover have "I s'" using step[OF i Inr] .
        ultimately show ?thesis using IH by blast
      qed
    qed
  qed
  then show ?thesis using assms(2) by simp
qed

section \<open>Properties of the search that hold for every input\<close>

text \<open>
  A neighbour is entered when it is traversable and, in strict mode, not a reserved cell
  other than the goal.
\<close>

definition admissible :: "SearchCtx \<Rightarrow> cell \<Rightarrow> bool" where
  "admissible ctx nid =
     (traversable ctx nid \<and> \<not> (strictMode ctx \<and> isReserved ctx nid \<and> nid \<noteq> endId ctx))"

definition adjacent4 :: "cell \<Rightarrow> cell \<Rightarrow> bool" where
  "adjacent4 a b = (\<bar>fst a - fst b\<bar> + \<bar>snd a - snd b\<bar> = 1)"

text \<open>The nodes the search can create: the start node, and every node pushed from one.\<close>

inductive genNode :: "SearchCtx \<Rightarrow> cell \<Rightarrow> AStarNode \<Rightarrow> bool"
  for ctx :: SearchCtx and startId :: cell where
  gen_start: "genNode ctx startId (startNodeOf startId (endId ctx))"
| gen_step: "genNode ctx startId p \<Longrightarrow> n \<in> set (neighbors p) \<Longrightarrow>
     admissible ctx (getCellId (fst n) (snd n)) \<Longrightarrow>
     genNode ctx startId (neighborNode ctx p (fst n) (snd n))"

text \<open>One step of a route: to a 4-adjacent cell that the search may enter.\<close>

definition routeStep :: "SearchCtx \<Rightarrow> cell \<Rightarrow> cell \<Rightarrow> bool" where
  "routeStep ctx a b = (adjacent4 a b \<and> admissible ctx b)"

text \<open>The surcharge for a change of direction, as the last summand of the step cost.\<close>

definition turnPenalty :: "AStarNode \<Rightarrow> int \<Rightarrow> int \<Rightarrow> rat" where
  "turnPenalty cur nx ny =
     (case n_parent cur of
        None \<Rightarrow> 0
      | Some p \<Rightarrow>
          if nx - n_x cur \<noteq> n_x cur - n_x p \<or> ny - n_y cur \<noteq> n_y cur - n_y p
          then 1 / 2 else 0)"

text \<open>The test \<^verbatim>\<open>!visited.has(nid) || newG < visited.get(nid)\<close>.\<close>

definition improves :: "(cell \<rightharpoonup> rat) \<Rightarrow> cell \<Rightarrow> rat \<Rightarrow> bool" where
  "improves vis c g = (\<forall>v. vis c = Some v \<longrightarrow> g < v)"

definition halfnat :: "rat \<Rightarrow> bool" where
  "halfnat v = (\<exists>k::nat. v = of_nat k / 2)"

lemma parseCellId_nonneg: "0 \<le> fst c \<Longrightarrow> 0 \<le> snd c \<Longrightarrow> parseCellId c = c"
  by (cases c) (simp add: parseCellId_def)

lemma startNodeOf_simps [simp]:
  "n_id (startNodeOf s e) = s"
  "n_x (startNodeOf s e) = fst (parseCellId s)" "n_y (startNodeOf s e) = snd (parseCellId s)"
  "n_g (startNodeOf s e) = 0" "n_parent (startNodeOf s e) = None"
  "n_h (startNodeOf s e) =
     getHeuristic (fst (parseCellId s)) (snd (parseCellId s)) (fst (parseCellId e)) (snd (parseCellId e))"
  "n_f (startNodeOf s e) =
     getHeuristic (fst (parseCellId s)) (snd (parseCellId s)) (fst (parseCellId e)) (snd (parseCellId e))"
  "reconstructPath (startNodeOf s e) = [s]"
  by (simp_all add: startNodeOf_def Let_def)

lemma neighborNode_simps [simp]:
  "n_id (neighborNode ctx p nx ny) = (nx, ny)"
  "n_x (neighborNode ctx p nx ny) = nx" "n_y (neighborNode ctx p nx ny) = ny"
  "n_g (neighborNode ctx p nx ny) = n_g p + moveCost ctx p nx ny"
  "n_parent (neighborNode ctx p nx ny) = Some p"
  "n_h (neighborNode ctx p nx ny) = getHeuristic nx ny (fst (endNode ctx)) (snd (endNode ctx))"
  "n_f (neighborNode ctx p nx ny) =
     n_g p + moveCost ctx p nx ny + getHeuristic nx ny (fst (endNode ctx)) (snd (endNode ctx))"
  "reconstructPath (neighborNode ctx p nx ny) = reconstructPath p @ [(nx, ny)]"
  by (simp_all add: neighborNode_def getCellId_def Let_def)

lemma improves_case:
  "(case vis c of None \<Rightarrow> True | Some v \<Rightarrow> g < v) = improves vis c g"
  by (simp add: improves_def split: option.split)

lemma visitNeighbor_eq:
  "visitNeighbor ctx cur (nx, ny) (os, vis) =
     (if admissible ctx (nx, ny) \<and> improves vis (nx, ny) (n_g cur + moveCost ctx cur nx ny)
      then (push n_f os (neighborNode ctx cur nx ny),
            vis((nx, ny) \<mapsto> n_g cur + moveCost ctx cur nx ny))
      else (os, vis))"
  by (simp add: visitNeighbor_def admissible_def getCellId_def Let_def improves_case)

lemma fold_visit_induct:
  assumes "P st"
    and "\<And>n st. n \<in> set ns \<Longrightarrow> P st \<Longrightarrow> P (visitNeighbor ctx cur n st)"
  shows "P (fold (visitNeighbor ctx cur) ns st)"
  using assms by (induction ns arbitrary: st) auto

lemma astarStep_Inr:
  assumes "astarStep ctx (os, vis) = Inr s'"
  obtains cur os1 where "pop n_f os = (Some cur, os1)" "n_id cur \<noteq> endId ctx"
    "(case vis (n_id cur) of None \<Rightarrow> False | Some v \<Rightarrow> v < n_g cur) \<Longrightarrow> s' = (os1, vis)"
    "\<not> (case vis (n_id cur) of None \<Rightarrow> False | Some v \<Rightarrow> v < n_g cur) \<Longrightarrow>
       s' = fold (visitNeighbor ctx cur) (neighbors cur) (os1, vis)"
  using assms
  by (auto simp: astarStep_def split: if_splits prod.splits option.splits)

lemma astarStep_Inl:
  assumes "astarStep ctx (os, vis) = Inl r"
  shows "(os = [] \<and> r = None) \<or>
         (\<exists>cur os1. pop n_f os = (Some cur, os1) \<and> n_id cur = endId ctx \<and>
            r = Some (reconstructPath cur))"
  using assms
  by (auto simp: astarStep_def isEmpty_def pop_empty split: if_splits prod.splits option.splits)

lemma pop_set:
  assumes "pop fk h = (Some r, h')"
  shows "set h = insert r (set h')"
  using pop_mset[OF assms] by (metis set_mset_add_mset_insert set_mset_mset)

lemma set_push: "set (push fk h x) = insert x (set h)"
  using mset_push[of fk h x] by (metis set_mset_add_mset_insert set_mset_mset)

lemma length_push: "length (push fk h x) = Suc (length h)"
  using mset_push[of fk h x] by (metis size_add_mset size_mset)

lemma length_pop:
  assumes "pop fk h = (Some r, h')"
  shows "length h = Suc (length h')"
  using pop_mset[OF assms] by (metis size_add_mset size_mset)

subsection \<open>Generated nodes\<close>

lemma genNode_id: "genNode ctx s n \<Longrightarrow> parseCellId s = s \<Longrightarrow> n_id n = (n_x n, n_y n)"
  by (induction rule: genNode.induct) simp_all

lemma neighbors_adjacent:
  "n \<in> set (neighbors p) \<Longrightarrow> adjacent4 (n_x p, n_y p) n"
  by (auto simp: neighbors_def adjacent4_def)

lemma genNode_path:
  "genNode ctx s n \<Longrightarrow>
     reconstructPath n \<noteq> [] \<and> hd (reconstructPath n) = s \<and> last (reconstructPath n) = n_id n \<and>
     (\<forall>c \<in> set (tl (reconstructPath n)). admissible ctx c)"
proof (induction rule: genNode.induct)
  case gen_start
  then show ?case by simp
next
  case (gen_step p n)
  then show ?case by (cases n) (auto simp: getCellId_def)
qed

lemma genNode_route:
  "genNode ctx s n \<Longrightarrow> parseCellId s = s \<Longrightarrow> successively (routeStep ctx) (reconstructPath n)"
proof (induction rule: genNode.induct)
  case gen_start
  then show ?case by simp
next
  case (gen_step p n)
  have l: "reconstructPath p \<noteq> []" "last (reconstructPath p) = n_id p"
    using genNode_path[OF gen_step(1)] by simp_all
  have "routeStep ctx (last (reconstructPath p)) n"
    using gen_step(2,3) neighbors_adjacent[OF gen_step(2)] genNode_id[OF gen_step(1) gen_step(5)] l
    by (simp add: routeStep_def getCellId_def)
  then show ?case using gen_step l
    by (cases n) (simp add: successively_append_iff)
qed

lemma halfnat_add: "halfnat a \<Longrightarrow> halfnat b \<Longrightarrow> halfnat (a + b)"
proof -
  assume "halfnat a" "halfnat b"
  then obtain k l :: nat where "a = of_nat k / 2" "b = of_nat l / 2" unfolding halfnat_def by blast
  then have "a + b = of_nat (k + l) / 2" by (simp add: add_divide_distrib)
  then show ?thesis unfolding halfnat_def by blast
qed

lemma halfnat_nat [simp]: "halfnat (of_nat k)"
  unfolding halfnat_def by (rule exI[of _ "2 * k"]) simp

lemma halfnat_consts [simp]: "halfnat 0" "halfnat 1" "halfnat 20" "halfnat 1000" "halfnat 2"
  "halfnat (1 / 2)"
proof -
  show "halfnat 0" using halfnat_nat[of 0] by simp
  show "halfnat 1" using halfnat_nat[of 1] by simp
  show "halfnat 20" using halfnat_nat[of 20] by simp
  show "halfnat 1000" using halfnat_nat[of 1000] by simp
  show "halfnat 2" using halfnat_nat[of 2] by simp
  show "halfnat (1 / 2)" unfolding halfnat_def by (rule exI[of _ 1]) simp
qed

lemma halfnat_if: "halfnat a \<Longrightarrow> halfnat b \<Longrightarrow> halfnat (if c then a else b)"
  by simp

lemma moveCost_decomp:
  "moveCost ctx cur nx ny =
     1 + (if (nx, ny) \<in> occupiedCells ctx \<and> (nx, ny) \<noteq> endId ctx then 20 else 0)
       + (if \<not> strictMode ctx \<and> isReserved ctx (nx, ny) \<and> (nx, ny) \<noteq> endId ctx then 1000 else 0)
       + (if (nx, ny) \<in> nearCongestionCells ctx then 2 else 0)
       + turnPenalty cur nx ny"
  by (simp add: moveCost_def turnPenalty_def getCellId_def Let_def split: option.split)

lemma halfnat_turnPenalty: "halfnat (turnPenalty cur nx ny)"
  by (simp add: turnPenalty_def split: option.split)

lemma turnPenalty_nonneg: "0 \<le> turnPenalty cur nx ny"
  by (simp add: turnPenalty_def split: option.split)

lemma halfnat_moveCost: "halfnat (moveCost ctx cur nx ny)"
  unfolding moveCost_decomp
  by (intro halfnat_add halfnat_turnPenalty) simp_all

lemma moveCost_ge1: "1 \<le> moveCost ctx cur nx ny"
  unfolding moveCost_decomp using turnPenalty_nonneg[of cur nx ny] by simp

lemma genNode_halfnat: "genNode ctx s n \<Longrightarrow> halfnat (n_g n)"
  by (induction rule: genNode.induct) (simp_all add: halfnat_add halfnat_moveCost)

lemma genNode_g_nonneg: "genNode ctx s n \<Longrightarrow> 0 \<le> n_g n"
proof (induction rule: genNode.induct)
  case gen_start
  then show ?case by simp
next
  case (gen_step p n)
  then show ?case using moveCost_ge1[of ctx p "fst n" "snd n"] by simp
qed


subsection \<open>Every returned path is a route from the start to the goal\<close>

definition openGen :: "SearchCtx \<Rightarrow> cell \<Rightarrow> AStarNode list \<times> (cell \<rightharpoonup> rat) \<Rightarrow> bool" where
  "openGen ctx s st = (\<forall>n \<in> set (fst st). genNode ctx s n)"

lemma visit_openGen:
  assumes "genNode ctx s cur" "n \<in> set (neighbors cur)" "openGen ctx s st"
  shows "openGen ctx s (visitNeighbor ctx cur n st)"
proof -
  obtain nx ny os vis where n: "n = (nx, ny)" and st: "st = (os, vis)"
    by (cases n, cases st) auto
  have "admissible ctx (nx, ny) \<Longrightarrow> genNode ctx s (neighborNode ctx cur nx ny)"
    using gen_step[OF assms(1) assms(2)] n by (simp add: getCellId_def)
  then show ?thesis
    using assms(3) unfolding n st visitNeighbor_eq openGen_def by (auto simp: set_push)
qed

lemma step_openGen:
  assumes "openGen ctx s st" "astarStep ctx st = Inr st'"
  shows "openGen ctx s st'"
proof -
  obtain os vis where st: "st = (os, vis)" by (cases st) auto
  from assms(2)[unfolded st] obtain cur os1 where
    p: "pop n_f os = (Some cur, os1)" and
    a: "(case vis (n_id cur) of None \<Rightarrow> False | Some v \<Rightarrow> v < n_g cur) \<Longrightarrow> st' = (os1, vis)" and
    b: "\<not> (case vis (n_id cur) of None \<Rightarrow> False | Some v \<Rightarrow> v < n_g cur) \<Longrightarrow>
       st' = fold (visitNeighbor ctx cur) (neighbors cur) (os1, vis)"
    by (rule astarStep_Inr) auto
  have set: "set os = insert cur (set os1)" using pop_set[OF p] .
  then have cur: "genNode ctx s cur" and o1: "openGen ctx s (os1, vis)"
    using assms(1) unfolding st openGen_def by auto
  show ?thesis
  proof (cases "case vis (n_id cur) of None \<Rightarrow> False | Some v \<Rightarrow> v < n_g cur")
    case True
    then show ?thesis using a o1 by simp
  next
    case False
    have "openGen ctx s (fold (visitNeighbor ctx cur) (neighbors cur) (os1, vis))"
      by (rule fold_visit_induct[where P = "openGen ctx s", OF o1]) (rule visit_openGen[OF cur])
    then show ?thesis using b[OF False] by simp
  qed
qed

lemma exit_openGen:
  assumes "openGen ctx s st" "astarStep ctx st = Inl (Some p)"
  shows "\<exists>n. genNode ctx s n \<and> n_id n = endId ctx \<and> p = reconstructPath n"
proof -
  obtain os vis where st: "st = (os, vis)" by (cases st) auto
  from astarStep_Inl[OF assms(2)[unfolded st]] obtain cur os1 where
    p: "pop n_f os = (Some cur, os1)" "n_id cur = endId ctx" "p = reconstructPath cur"
    by auto
  have "cur \<in> set os" using pop_set[OF p(1)] by simp
  then show ?thesis using assms(1) p unfolding st openGen_def by auto
qed

lemma push_single: "push fk [] x = [x]"
  by (simp add: push_def Let_def siftUp.simps)

lemma findPathAStar_unfold:
  "grid s \<noteq> None \<Longrightarrow> grid e \<noteq> None \<Longrightarrow>
   findPathAStar s e grid trains ign res strict =
     astarLoop (searchCtx e grid trains ign res strict) ([startNodeOf s e], [s \<mapsto> 0])"
  by (auto simp: findPathAStar_def Let_def push_single)

lemma searchCtx_simps [simp]:
  "currentGrid (searchCtx e grid trains ign res strict) = grid"
  "endId (searchCtx e grid trains ign res strict) = e"
  "endNode (searchCtx e grid trains ign res strict) = parseCellId e"
  "reservedCells (searchCtx e grid trains ign res strict) = res"
  "strictMode (searchCtx e grid trains ign res strict) = strict"
  "occupiedCells (searchCtx e grid trains ign res strict) = fst (trainCells trains ign)"
  "nearCongestionCells (searchCtx e grid trains ign res strict) = snd (trainCells trains ign)"
  by (simp_all add: searchCtx_def)

lemma openGen_init:
  "openGen (searchCtx e grid trains ign res strict) s ([startNodeOf s e], vis)"
  unfolding openGen_def using gen_start[of "searchCtx e grid trains ign res strict" s] by simp

text \<open>
  A node is expanded only when it is not the goal, so the goal is the id of no node that
  has a child.
\<close>

fun ancestorIds :: "AStarNode \<Rightarrow> cell list" where
  "ancestorIds (AStarNode i x y g h f None) = []"
| "ancestorIds (AStarNode i x y g h f (Some p)) = reconstructPath p"

lemma ancestorIds_butlast: "ancestorIds n = butlast (reconstructPath n)"
  by (induction n rule: reconstructPath.induct) simp_all

lemma reconstructPath_last: "reconstructPath n \<noteq> [] \<and> last (reconstructPath n) = n_id n"
  by (induction n rule: reconstructPath.induct) simp_all

definition openGoal :: "SearchCtx \<Rightarrow> AStarNode list \<times> (cell \<rightharpoonup> rat) \<Rightarrow> bool" where
  "openGoal ctx st = (\<forall>n \<in> set (fst st). endId ctx \<notin> set (ancestorIds n))"

lemma neighborNode_ancestors:
  "ancestorIds (neighborNode ctx cur nx ny) = reconstructPath cur"
  by (simp add: neighborNode_def Let_def)

lemma visit_openGoal:
  assumes "endId ctx \<notin> set (reconstructPath cur)" "openGoal ctx st"
  shows "openGoal ctx (visitNeighbor ctx cur n st)"
proof -
  obtain nx ny os vis where n: "n = (nx, ny)" and st: "st = (os, vis)"
    by (cases n, cases st) auto
  show ?thesis
    using assms unfolding n st visitNeighbor_eq openGoal_def
    by (auto simp: set_push neighborNode_ancestors)
qed

lemma step_openGoal:
  assumes "openGoal ctx st" "astarStep ctx st = Inr st'"
  shows "openGoal ctx st'"
proof -
  obtain os vis where st: "st = (os, vis)" by (cases st) auto
  from assms(2)[unfolded st] obtain cur os1 where
    p: "pop n_f os = (Some cur, os1)" and ne: "n_id cur \<noteq> endId ctx" and
    a: "(case vis (n_id cur) of None \<Rightarrow> False | Some v \<Rightarrow> v < n_g cur) \<Longrightarrow> st' = (os1, vis)" and
    b: "\<not> (case vis (n_id cur) of None \<Rightarrow> False | Some v \<Rightarrow> v < n_g cur) \<Longrightarrow>
       st' = fold (visitNeighbor ctx cur) (neighbors cur) (os1, vis)"
    by (rule astarStep_Inr) auto
  have set: "set os = insert cur (set os1)" using pop_set[OF p] .
  then have cur: "endId ctx \<notin> set (ancestorIds cur)" and o1: "openGoal ctx (os1, vis)"
    using assms(1) unfolding st openGoal_def by auto
  have "set (reconstructPath cur) = insert (n_id cur) (set (ancestorIds cur))"
    using reconstructPath_last[of cur] unfolding ancestorIds_butlast
    by (metis append_butlast_last_id list.simps(15) set_append Un_insert_right sup_bot.right_neutral
        set_empty2 empty_set)
  then have rc: "endId ctx \<notin> set (reconstructPath cur)" using cur ne by auto
  show ?thesis
  proof (cases "case vis (n_id cur) of None \<Rightarrow> False | Some v \<Rightarrow> v < n_g cur")
    case True
    then show ?thesis using a o1 by simp
  next
    case False
    have "openGoal ctx (fold (visitNeighbor ctx cur) (neighbors cur) (os1, vis))"
      by (rule fold_visit_induct[where P = "openGoal ctx", OF o1]) (rule visit_openGoal[OF rc])
    then show ?thesis using b[OF False] by simp
  qed
qed

lemma findPathAStar_sound:
  assumes "findPathAStar s e grid trains ign res strict = Some (Some p)"
  shows "p \<noteq> [] \<and> hd p = s \<and> last p = e \<and> e \<notin> set (butlast p) \<and>
         (\<forall>c \<in> set (tl p). admissible (searchCtx e grid trains ign res strict) c) \<and>
         (parseCellId s = s \<longrightarrow> successively (routeStep (searchCtx e grid trains ign res strict)) p)"
proof -
  let ?ctx = "searchCtx e grid trains ign res strict"
  let ?I = "\<lambda>st. openGen ?ctx s st \<and> openGoal ?ctx st"
  have g: "grid s \<noteq> None" "grid e \<noteq> None"
    using assms by (auto simp: findPathAStar_def split: if_splits)
  have loop: "astarLoop ?ctx ([startNodeOf s e], [s \<mapsto> 0]) = Some (Some p)"
    using assms findPathAStar_unfold[OF g] by simp
  have "\<forall>q. Some p = Some q \<longrightarrow>
          (\<exists>n. genNode ?ctx s n \<and> n_id n = endId ?ctx \<and> q = reconstructPath n \<and>
               endId ?ctx \<notin> set (ancestorIds n))"
  proof (rule astarLoop_partial[OF loop, where I = ?I])
    show "?I ([startNodeOf s e], [s \<mapsto> 0])"
      using openGen_init[of e grid trains ign res strict s] by (simp add: openGoal_def startNodeOf_def Let_def)
  next
    fix st st' assume "?I st" "astarStep ?ctx st = Inr st'"
    then show "?I st'" using step_openGen step_openGoal by blast
  next
    fix st r assume i: "?I st" and x: "astarStep ?ctx st = Inl r"
    show "\<forall>q. r = Some q \<longrightarrow>
            (\<exists>n. genNode ?ctx s n \<and> n_id n = endId ?ctx \<and> q = reconstructPath n \<and>
                 endId ?ctx \<notin> set (ancestorIds n))"
    proof (intro allI impI)
      fix q assume q: "r = Some q"
      obtain os vis where st: "st = (os, vis)" by (cases st) auto
      from astarStep_Inl[OF x[unfolded st q]] obtain cur os1 where
        p: "pop n_f os = (Some cur, os1)" "n_id cur = endId ?ctx" "q = reconstructPath cur"
        by auto
      have "cur \<in> set os" using pop_set[OF p(1)] by simp
      then have "genNode ?ctx s cur" "endId ?ctx \<notin> set (ancestorIds cur)"
        using i unfolding st openGen_def openGoal_def by auto
      then show "\<exists>n. genNode ?ctx s n \<and> n_id n = endId ?ctx \<and> q = reconstructPath n \<and>
                 endId ?ctx \<notin> set (ancestorIds n)"
        using p by blast
    qed
  qed
  then obtain n where n: "genNode ?ctx s n" "n_id n = e" "p = reconstructPath n"
    "e \<notin> set (ancestorIds n)" by auto
  show ?thesis
    using genNode_path[OF n(1)] genNode_route[OF n(1)] n(2,3,4)
    by (simp add: ancestorIds_butlast)
qed

subsection \<open>Termination on a finite grid\<close>

definition cellsOf :: "SearchCtx \<Rightarrow> cell \<Rightarrow> cell set" where
  "cellsOf ctx s = insert s {c. traversable ctx c}"

definition searchInv :: "SearchCtx \<Rightarrow> cell \<Rightarrow> AStarNode list \<times> (cell \<rightharpoonup> rat) \<Rightarrow> bool" where
  "searchInv ctx s st =
     ((\<forall>n \<in> set (fst st). genNode ctx s n) \<and> dom (snd st) \<subseteq> cellsOf ctx s \<and>
      (\<forall>c v. snd st c = Some v \<longrightarrow> halfnat v))"

definition halfUnits :: "rat \<Rightarrow> nat" where
  "halfUnits v = nat \<lfloor>2 * v\<rfloor>"

definition visitedMeasure :: "SearchCtx \<Rightarrow> cell \<Rightarrow> (cell \<rightharpoonup> rat) \<Rightarrow> nat \<times> nat" where
  "visitedMeasure ctx s vis =
     (card (cellsOf ctx s - dom vis), \<Sum>c\<in>dom vis. halfUnits (the (vis c)))"

definition searchOrder ::
  "SearchCtx \<Rightarrow> cell \<Rightarrow> ((AStarNode list \<times> (cell \<rightharpoonup> rat)) \<times> (AStarNode list \<times> (cell \<rightharpoonup> rat))) set" where
  "searchOrder ctx s =
     inv_image ((less_than <*lex*> less_than) <*lex*> less_than)
       (\<lambda>st. (visitedMeasure ctx s (snd st), length (fst st)))"

lemma wf_searchOrder: "wf (searchOrder ctx s)"
  unfolding searchOrder_def by (intro wf_inv_image wf_lex_prod wf_less_than)

lemma finite_cellsOf: "finite (dom (currentGrid ctx)) \<Longrightarrow> finite (cellsOf ctx s)"
proof -
  assume f: "finite (dom (currentGrid ctx))"
  have "{c. traversable ctx c} \<subseteq> dom (currentGrid ctx)"
    by (auto simp: traversable_def split: option.splits)
  then show ?thesis using f unfolding cellsOf_def by (simp add: finite_subset)
qed

lemma halfUnits_less:
  assumes "halfnat a" "halfnat b" "a < b"
  shows "halfUnits a < halfUnits b"
proof -
  obtain k l :: nat where a: "a = of_nat k / 2" and b: "b = of_nat l / 2"
    using assms unfolding halfnat_def by blast
  have "halfUnits a = k" "halfUnits b = l" unfolding halfUnits_def a b by simp_all
  moreover have "k < l" using assms(3) unfolding a b by simp
  ultimately show ?thesis by simp
qed

lemma visit_progress:
  assumes fin: "finite (dom (currentGrid ctx))"
    and inv: "searchInv ctx s st"
    and cur: "genNode ctx s cur" and n: "n \<in> set (neighbors cur)"
  shows "searchInv ctx s (visitNeighbor ctx cur n st) \<and>
         (visitNeighbor ctx cur n st = st \<or>
          (visitedMeasure ctx s (snd (visitNeighbor ctx cur n st)), visitedMeasure ctx s (snd st))
            \<in> less_than <*lex*> less_than)"
proof -
  obtain nx ny os vis where nn: "n = (nx, ny)" and st: "st = (os, vis)"
    by (cases n, cases st) auto
  let ?node = "neighborNode ctx cur nx ny"
  let ?g = "n_g cur + moveCost ctx cur nx ny"
  show ?thesis
  proof (cases "admissible ctx (nx, ny) \<and> improves vis (nx, ny) ?g")
    case False
    then have "visitNeighbor ctx cur n st = st" unfolding nn st visitNeighbor_eq by auto
    then show ?thesis using inv by simp
  next
    case True
    then have eq: "visitNeighbor ctx cur n st = (push n_f os ?node, vis((nx, ny) \<mapsto> ?g))"
      unfolding nn st visitNeighbor_eq by simp
    have gen: "genNode ctx s ?node"
      using gen_step[OF cur n] True nn by (simp add: getCellId_def)
    have hg: "halfnat ?g" using genNode_halfnat[OF gen] by simp
    have inD: "(nx, ny) \<in> cellsOf ctx s" using True by (simp add: cellsOf_def admissible_def)
    have fD: "finite (cellsOf ctx s)" using finite_cellsOf[OF fin] .
    have dv: "dom vis \<subseteq> cellsOf ctx s" using inv unfolding st searchInv_def by simp
    have fv: "finite (dom vis)" using dv fD by (rule finite_subset)
    have inv': "searchInv ctx s (push n_f os ?node, vis((nx, ny) \<mapsto> ?g))"
      using inv gen hg inD unfolding st searchInv_def by (auto simp: set_push)
    have "(visitedMeasure ctx s (vis((nx, ny) \<mapsto> ?g)), visitedMeasure ctx s vis)
            \<in> less_than <*lex*> less_than"
    proof (cases "vis (nx, ny)")
      case None
      then have m: "(nx, ny) \<in> cellsOf ctx s - dom vis" using inD by auto
      have e: "cellsOf ctx s - dom (vis((nx, ny) \<mapsto> ?g)) = (cellsOf ctx s - dom vis) - {(nx, ny)}"
        by auto
      have f': "finite (cellsOf ctx s - dom vis)" using fD by simp
      have "card (cellsOf ctx s - dom (vis((nx, ny) \<mapsto> ?g))) < card (cellsOf ctx s - dom vis)"
        unfolding e by (rule card_Diff1_less[OF f' m])
      then show ?thesis unfolding visitedMeasure_def by simp
    next
      case (Some v)
      then have lt: "?g < v" using True by (simp add: improves_def)
      have hv: "halfnat v" using inv Some unfolding st searchInv_def by auto
      have d: "dom (vis((nx, ny) \<mapsto> ?g)) = dom vis" using Some by auto
      have mem: "(nx, ny) \<in> dom vis" using Some by auto
      let ?f = "\<lambda>c. halfUnits (the (vis c))"
      let ?f' = "\<lambda>c. halfUnits (the ((vis((nx, ny) \<mapsto> ?g)) c))"
      have "(\<Sum>c\<in>dom vis. ?f' c) = ?f' (nx, ny) + (\<Sum>c\<in>dom vis - {(nx, ny)}. ?f' c)"
        using fv mem by (rule sum.remove)
      moreover have "(\<Sum>c\<in>dom vis. ?f c) = ?f (nx, ny) + (\<Sum>c\<in>dom vis - {(nx, ny)}. ?f c)"
        using fv mem by (rule sum.remove)
      moreover have "(\<Sum>c\<in>dom vis - {(nx, ny)}. ?f' c) = (\<Sum>c\<in>dom vis - {(nx, ny)}. ?f c)"
        by (rule sum.cong) auto
      moreover have "?f' (nx, ny) < ?f (nx, ny)"
        using halfUnits_less[OF hg hv lt] Some by simp
      ultimately have "(\<Sum>c\<in>dom vis. ?f' c) < (\<Sum>c\<in>dom vis. ?f c)" by linarith
      then show ?thesis unfolding visitedMeasure_def d by simp
    qed
    then show ?thesis using inv' eq st by simp
  qed
qed

lemma fold_progress:
  assumes fin: "finite (dom (currentGrid ctx))"
    and inv: "searchInv ctx s st"
    and cur: "genNode ctx s cur"
  shows "searchInv ctx s (fold (visitNeighbor ctx cur) (neighbors cur) st) \<and>
         (fold (visitNeighbor ctx cur) (neighbors cur) st = st \<or>
          (visitedMeasure ctx s (snd (fold (visitNeighbor ctx cur) (neighbors cur) st)),
           visitedMeasure ctx s (snd st)) \<in> less_than <*lex*> less_than)"
proof (rule fold_visit_induct)
  show "searchInv ctx s st \<and>
    (st = st \<or> (visitedMeasure ctx s (snd st), visitedMeasure ctx s (snd st)) \<in> less_than <*lex*> less_than)"
    using inv by simp
next
  fix n st1
  assume n: "n \<in> set (neighbors cur)"
    and h: "searchInv ctx s st1 \<and>
      (st1 = st \<or> (visitedMeasure ctx s (snd st1), visitedMeasure ctx s (snd st)) \<in> less_than <*lex*> less_than)"
  have tr: "trans (less_than <*lex*> less_than :: ((nat \<times> nat) \<times> (nat \<times> nat)) set)"
    by (intro trans_lex_prod trans_less_than)
  from visit_progress[OF fin _ cur n, of st1] h
  have v: "searchInv ctx s (visitNeighbor ctx cur n st1)"
    "visitNeighbor ctx cur n st1 = st1 \<or>
      (visitedMeasure ctx s (snd (visitNeighbor ctx cur n st1)), visitedMeasure ctx s (snd st1))
        \<in> less_than <*lex*> less_than"
    by auto
  show "searchInv ctx s (visitNeighbor ctx cur n st1) \<and>
    (visitNeighbor ctx cur n st1 = st \<or>
     (visitedMeasure ctx s (snd (visitNeighbor ctx cur n st1)), visitedMeasure ctx s (snd st))
       \<in> less_than <*lex*> less_than)"
    using v h transD[OF tr] by metis
qed

lemma step_searchInv:
  assumes fin: "finite (dom (currentGrid ctx))"
    and inv: "searchInv ctx s st" and step: "astarStep ctx st = Inr st'"
  shows "searchInv ctx s st' \<and> (st', st) \<in> searchOrder ctx s"
proof -
  obtain os vis where st: "st = (os, vis)" by (cases st) auto
  from step[unfolded st] obtain cur os1 where
    p: "pop n_f os = (Some cur, os1)" and
    a: "(case vis (n_id cur) of None \<Rightarrow> False | Some v \<Rightarrow> v < n_g cur) \<Longrightarrow> st' = (os1, vis)" and
    b: "\<not> (case vis (n_id cur) of None \<Rightarrow> False | Some v \<Rightarrow> v < n_g cur) \<Longrightarrow>
       st' = fold (visitNeighbor ctx cur) (neighbors cur) (os1, vis)"
    by (rule astarStep_Inr) auto
  have set: "set os = insert cur (set os1)" using pop_set[OF p] .
  have len: "length os = Suc (length os1)" using length_pop[OF p] .
  have cur: "genNode ctx s cur" and i1: "searchInv ctx s (os1, vis)"
    using inv set unfolding st searchInv_def by auto
  have base: "((os1, vis), (os, vis)) \<in> searchOrder ctx s"
    unfolding searchOrder_def using len by simp
  show ?thesis
  proof (cases "case vis (n_id cur) of None \<Rightarrow> False | Some v \<Rightarrow> v < n_g cur")
    case True
    then show ?thesis using a i1 base st by simp
  next
    case False
    let ?st = "fold (visitNeighbor ctx cur) (neighbors cur) (os1, vis)"
    have f: "searchInv ctx s ?st"
      "?st = (os1, vis) \<or> (visitedMeasure ctx s (snd ?st), visitedMeasure ctx s vis) \<in> less_than <*lex*> less_than"
      using fold_progress[OF fin i1 cur] by auto
    have "(?st, (os, vis)) \<in> searchOrder ctx s"
    proof (cases "?st = (os1, vis)")
      case True
      then show ?thesis using base by simp
    next
      case False
      then have "(visitedMeasure ctx s (snd ?st), visitedMeasure ctx s vis) \<in> less_than <*lex*> less_than"
        using f(2) by simp
      then show ?thesis unfolding searchOrder_def by (auto simp: case_prod_beta)
    qed
    then show ?thesis using f(1) b[OF False] st by simp
  qed
qed

lemma searchInv_init:
  "searchInv (searchCtx e grid trains ign res strict) s ([startNodeOf s e], [s \<mapsto> 0])"
  unfolding searchInv_def cellsOf_def
  using gen_start[of "searchCtx e grid trains ign res strict" s] by simp

lemma findPathAStar_terminates:
  assumes "finite (dom grid)"
  shows "\<exists>r. findPathAStar s e grid trains ign res strict = Some r"
proof (cases "grid s \<noteq> None \<and> grid e \<noteq> None")
  case False
  then show ?thesis by (auto simp: findPathAStar_def)
next
  case True
  let ?ctx = "searchCtx e grid trains ign res strict"
  have fin: "finite (dom (currentGrid ?ctx))" using assms by simp
  have "\<exists>r. astarLoop ?ctx ([startNodeOf s e], [s \<mapsto> 0]) = Some r \<and> True"
  proof (rule astarLoop_total[OF wf_searchOrder, where I = "searchInv ?ctx s"])
    show "searchInv ?ctx s ([startNodeOf s e], [s \<mapsto> 0])" by (rule searchInv_init)
  next
    fix st st' assume "searchInv ?ctx s st" "astarStep ?ctx st = Inr st'"
    then show "searchInv ?ctx s st' \<and> (st', st) \<in> searchOrder ?ctx s"
      using step_searchInv[OF fin] by blast
  qed simp
  then show ?thesis using findPathAStar_unfold True by simp
qed

section \<open>Reachability and reservations\<close>

text \<open>
  The spec's notion of a route: a cell can be entered when the grid holds a track or
  station cell there and, under the strict flag, it is not a reserved cell other than
  the goal; the goal is reachable when a chain of 4-adjacent cells that can be entered
  leads from the start to it.
\<close>

definition canEnter :: "(cell \<rightharpoonup> Cell) \<Rightarrow> cell set option \<Rightarrow> bool \<Rightarrow> cell \<Rightarrow> cell \<Rightarrow> bool" where
  "canEnter grid reserved strict goal c =
     ((\<exists>cl. grid c = Some cl \<and> (c_type cl = Track \<or> c_type cl = Station)) \<and>
      \<not> (strict \<and> (\<exists>r. reserved = Some r \<and> c \<in> r) \<and> c \<noteq> goal))"

definition connected ::
  "(cell \<rightharpoonup> Cell) \<Rightarrow> cell set option \<Rightarrow> bool \<Rightarrow> cell \<Rightarrow> (cell \<times> cell) set" where
  "connected grid reserved strict goal =
     {(a, b). adjacent4 a b \<and> canEnter grid reserved strict goal b}\<^sup>*"

definition trackCell :: "int \<Rightarrow> int \<Rightarrow> Cell" where
  "trackCell x y = \<lparr> c_x = x, c_y = y, c_type = Track, stationName = None, c_id = getCellId x y \<rparr>"

text \<open>The grid as the application builds it: every cell of a \<open>w\<close> by \<open>h\<close> rectangle is track.\<close>

definition rectGrid :: "int \<Rightarrow> int \<Rightarrow> cell \<rightharpoonup> Cell" where
  "rectGrid w h =
     (\<lambda>(x, y). if 0 \<le> x \<and> x < w \<and> 0 \<le> y \<and> y < h then Some (trackCell x y) else None)"

lemma admissible_canEnter:
  "admissible (searchCtx e grid trains ign res strict) c = canEnter grid res strict e c"
  by (auto simp: admissible_def canEnter_def traversable_def isReserved_def split: option.splits)

lemma successively_rtrancl:
  "successively P xs \<Longrightarrow> xs \<noteq> [] \<Longrightarrow> (hd xs, last xs) \<in> {(a, b). P a b}\<^sup>*"
proof (induction xs rule: induct_list012)
  case 1
  then show ?case by simp
next
  case (2 x)
  then show ?case by simp
next
  case (3 x y zs)
  then have "(y, last (y # zs)) \<in> {(a, b). P a b}\<^sup>*" by simp
  moreover have "(x, y) \<in> {(a, b). P a b}" using 3(3) by simp
  ultimately show ?case by (simp add: converse_rtrancl_into_rtrancl)
qed

lemma finite_rectGrid: "finite (dom (rectGrid w h))"
proof -
  have "dom (rectGrid w h) \<subseteq> {0..<w} \<times> {0..<h}"
    by (auto simp: rectGrid_def split: if_splits)
  then show ?thesis by (rule finite_subset) simp
qed



text \<open>
  Claim C2, as stated: with the strict flag no cell of a returned path other than the
  goal is reserved.  The start cell is pushed without any test, so a search that starts
  on a reserved cell returns a path through it.
\<close>

theorem strict_start_reserved_counterexample:
  "\<not> (\<forall>p. findPathAStar (0, 0) (1, 0) (rectGrid 2 1) [] None (Some {(0, 0)}) True = Some (Some p)
          \<longrightarrow> (\<forall>c \<in> set p. c \<noteq> (1, 0) \<longrightarrow> c \<notin> {(0, 0)}))"
proof -
  have "findPathAStar (0, 0) (1, 0) (rectGrid 2 1) [] None (Some {(0, 0)}) True
          = Some (Some [(0, 0), (1, 0)])"
    by code_simp
  then show ?thesis by simp
qed

text \<open>
  Claim C2, amended.  With the strict flag and a reservation set \<open>R\<close>, a returned path
  begins at the start cell, and no cell after its first position belongs to \<open>R\<close> unless
  it is the goal: reserved cells are never entered, only the start is exempt.
\<close>

theorem strict_path_avoids_reserved:
  assumes "findPathAStar startId goal grid trains ignoreTrainId (Some R) True = Some (Some p)"
  shows "p \<noteq> [] \<and> hd p = startId \<and> (\<forall>c \<in> set (tl p). c \<in> R \<longrightarrow> c = goal)"
proof -
  let ?ctx = "searchCtx goal grid trains ignoreTrainId (Some R) True"
  have s: "p \<noteq> []" "hd p = startId" "\<forall>c \<in> set (tl p). admissible ?ctx c"
    using findPathAStar_sound[OF assms] by auto
  have "\<And>c. c \<in> set (tl p) \<Longrightarrow> c \<in> R \<Longrightarrow> c = goal"
  proof -
    fix c assume "c \<in> set (tl p)" and r: "c \<in> R"
    then have "canEnter grid (Some R) True goal c"
      using s(3) by (simp add: admissible_canEnter)
    then show "c = goal" using r by (simp add: canEnter_def)
  qed
  then show ?thesis using s by blast
qed

theorem strict_path_avoids_reserved_witness:
  "findPathAStar (0, 0) (2, 0) (rectGrid 3 2) [] None (Some {(1, 0)}) True
     = Some (Some [(0, 0), (0, 1), (1, 1), (2, 1), (2, 0)])
   \<and> hd [(0, 0), (0, 1), (1, 1), (2, 1), (2, 0)] = ((0, 0) :: cell)
   \<and> (1, 0) \<notin> set (tl [(0, 0), (0, 1), (1, 1), (2, 1), (2 :: int, 0 :: int)])"
proof -
  have e: "findPathAStar (0, 0) (2, 0) (rectGrid 3 2) [] None (Some {(1, 0)}) True
     = Some (Some [(0, 0), (0, 1), (1, 1), (2, 1), (2, 0)])"
    by code_simp
  show ?thesis using strict_path_avoids_reserved[OF e] e by simp
qed

section \<open>Deadlock monitor\<close>

text \<open>
  The end of the tick callback: the trains that stay active are those that have not
  arrived or are cyclic, and the global warning flag is assigned from them.  The flag
  of the previous tick is an input of the model (it is the React state being
  overwritten) so that its irrelevance can be stated.
\<close>

definition runningTrains :: "Train list \<Rightarrow> Train list" where
  "runningTrains nextTrainsState =
     filter (\<lambda>t. state t \<noteq> Arrived \<or> isCyclic t) nextTrainsState"

definition deadlockCheck :: "bool \<Rightarrow> Train list \<Rightarrow> bool" where
  "deadlockCheck globalDeadlockWarning running =
     (if length running > 1 \<and> list_all (\<lambda>t. state t = Waiting \<and> waitingTime t > 20) running
      then True else False)"

definition finishTick :: "bool \<Rightarrow> Train list \<Rightarrow> Train list \<times> bool" where
  "finishTick globalDeadlockWarning nextTrainsState =
     (let running = runningTrains nextTrainsState
      in (running, deadlockCheck globalDeadlockWarning running))"

text \<open>Sample trains used to instantiate the theorems below.\<close>

definition sampleTrain :: "string \<Rightarrow> TrainState \<Rightarrow> nat \<Rightarrow> Train" where
  "sampleTrain i s w =
     \<lparr> t_id = i, t_name = i, fromId = (0, 0), toId = (4, 0),
       path = [(0, 0), (1, 0), (2, 0), (3, 0), (4, 0)], currentPathIndex = 1,
       progress = 0, state = s, priority = 5, t_type = Manual, color = ''red'',
       waitingTime = w, isCyclic = False, dwellRemaining = 0 \<rparr>"

text \<open>
  Claim C3.  After a tick, the deadlock warning is true if and only if more than one
  train is active and every active train is waiting with a waiting time above 20; the
  value does not depend on the warning of the previous tick.
\<close>

theorem deadlock_warning_iff:
  "snd (finishTick prev nextTrainsState) =
     (length (fst (finishTick prev nextTrainsState)) > 1 \<and>
      (\<forall>t \<in> set (fst (finishTick prev nextTrainsState)).
          state t = Waiting \<and> waitingTime t > 20))
   \<and> snd (finishTick prev nextTrainsState) = snd (finishTick (\<not> prev) nextTrainsState)
   \<and> fst (finishTick prev nextTrainsState) = runningTrains nextTrainsState"
  by (simp add: finishTick_def deadlockCheck_def list_all_iff Let_def)

theorem deadlock_warning_iff_witness:
  "snd (finishTick False [sampleTrain ''a'' Waiting 21, sampleTrain ''b'' Waiting 25])
   \<and> \<not> snd (finishTick True [sampleTrain ''a'' Waiting 21, sampleTrain ''b'' Waiting 20])
   \<and> \<not> snd (finishTick True [sampleTrain ''a'' Waiting 21])"
  using deadlock_warning_iff [of False "[sampleTrain ''a'' Waiting 21, sampleTrain ''b'' Waiting 25]"]
    deadlock_warning_iff [of True "[sampleTrain ''a'' Waiting 21, sampleTrain ''b'' Waiting 20]"]
    deadlock_warning_iff [of True "[sampleTrain ''a'' Waiting 21]"]
  by (simp add: finishTick_def runningTrains_def sampleTrain_def Let_def)

text \<open>
  Claim C4, as stated: the warning is true exactly when at least two active trains are
  waiting with a waiting time above 20, whatever the other trains do.  Two stuck trains
  beside a moving one refute it: the warning stays false.
\<close>

theorem deadlock_two_stuck_counterexample:
  "\<not> (snd (finishTick False
          [sampleTrain ''a'' Waiting 21, sampleTrain ''b'' Waiting 25, sampleTrain ''c'' Moving 0])
       = (length (filter (\<lambda>t. state t = Waiting \<and> waitingTime t > 20)
            (fst (finishTick False
              [sampleTrain ''a'' Waiting 21, sampleTrain ''b'' Waiting 25,
               sampleTrain ''c'' Moving 0]))) \<ge> 2))"
  by (simp add: finishTick_def runningTrains_def deadlockCheck_def sampleTrain_def Let_def)

text \<open>
  Claim C4, amended.  The warning is true exactly when at least two active trains are
  waiting with a waiting time above 20 and no active train is in any other condition;
  hence it is false on any tick after which one of the active trains is moving.
\<close>

theorem deadlock_all_stuck:
  "snd (finishTick prev nextTrainsState) =
     (length (filter (\<lambda>t. state t = Waiting \<and> waitingTime t > 20)
        (runningTrains nextTrainsState)) \<ge> 2 \<and>
      filter (\<lambda>t. \<not> (state t = Waiting \<and> waitingTime t > 20))
        (runningTrains nextTrainsState) = [])
   \<and> ((\<exists>t \<in> set (runningTrains nextTrainsState). state t = Moving)
        \<longrightarrow> \<not> snd (finishTick prev nextTrainsState))"
proof -
  let ?rs = "runningTrains nextTrainsState"
  let ?stuck = "\<lambda>t. state t = Waiting \<and> waitingTime t > 20"
  have all: "list_all ?stuck ?rs \<longleftrightarrow> filter (\<lambda>t. \<not> ?stuck t) ?rs = []"
    by (simp add: list_all_iff filter_empty_conv)
  have len: "list_all ?stuck ?rs \<Longrightarrow> filter ?stuck ?rs = ?rs"
    by (simp add: list_all_iff)
  have w: "snd (finishTick prev nextTrainsState) = (length ?rs > 1 \<and> list_all ?stuck ?rs)"
    by (simp add: finishTick_def deadlockCheck_def Let_def)
  have e: "(length ?rs > 1 \<and> list_all ?stuck ?rs)
      = (length (filter ?stuck ?rs) \<ge> 2 \<and> filter (\<lambda>t. \<not> ?stuck t) ?rs = [])"
    using all len by (cases "list_all ?stuck ?rs") auto
  have m: "(\<exists>t \<in> set ?rs. state t = Moving) \<longrightarrow> \<not> list_all ?stuck ?rs"
    by (fastforce simp: list_all_iff)
  show ?thesis
  proof (intro conjI)
    show "snd (finishTick prev nextTrainsState) =
      (length (filter ?stuck ?rs) \<ge> 2 \<and> filter (\<lambda>t. \<not> ?stuck t) ?rs = [])"
      using w e by blast
    show "(\<exists>t \<in> set ?rs. state t = Moving) \<longrightarrow> \<not> snd (finishTick prev nextTrainsState)"
      using w m by blast
  qed
qed

theorem deadlock_all_stuck_witness:
  "snd (finishTick False [sampleTrain ''a'' Waiting 21, sampleTrain ''b'' Waiting 25])
   \<and> (\<exists>t \<in> set (runningTrains [sampleTrain ''a'' Waiting 21, sampleTrain ''b'' Moving 0]).
         state t = Moving)
   \<and> \<not> snd (finishTick True [sampleTrain ''a'' Waiting 21, sampleTrain ''b'' Moving 0])"
  using deadlock_all_stuck [of False "[sampleTrain ''a'' Waiting 21, sampleTrain ''b'' Waiting 25]"]
    deadlock_all_stuck [of True "[sampleTrain ''a'' Waiting 21, sampleTrain ''b'' Moving 0]"]
  by (simp add: runningTrains_def sampleTrain_def)

section \<open>The tick engine\<close>

text \<open>
  The progress of a train is advanced in IEEE 754 double precision: every operation
  returns the double nearest to the exact result, and of two equally near doubles the
  one with the even significand.  \<^verbatim>\<open>roundDouble\<close> is this rounding on the rationals.
  \<^verbatim>\<open>binade x\<close> is the exponent \<open>e\<close> with \<open>2 ^ e \<le> \<bar>x\<bar> < 2 ^ (e + 1)\<close>; the doubles of that
  size are the multiples of \<open>2 ^ (e - 52)\<close>, and those below \<open>2 ^ (- 1022)\<close> are the multiples
  of \<open>2 ^ (- 1074)\<close>.  The exponent is found from the numbers of binary digits
  (\<^verbatim>\<open>bitlen\<close>) of numerator and denominator.  A result beyond the largest double stays
  the rational it is, where the code has \<^verbatim>\<open>Infinity\<close>; both compare with \<open>1\<close> in the same
  way.
\<close>

definition roundHalfEven :: "rat \<Rightarrow> int" where
  "roundHalfEven x =
     (let f = \<lfloor>x\<rfloor>; d = x - of_int f
      in if d < 1 / 2 then f else if 1 / 2 < d then f + 1 else if even f then f else f + 1)"

definition binade :: "rat \<Rightarrow> int" where
  "binade x =
     (case quotient_of \<bar>x\<bar> of (p, q) \<Rightarrow>
        let d = bitlen p - bitlen q
        in if power_int 2 d \<le> \<bar>x\<bar> then d else d - 1)"

definition roundDouble :: "rat \<Rightarrow> rat" where
  "roundDouble x =
     (if x = 0 then 0
      else let e = max (binade x) (- 1022);
               ulp = power_int 2 (e - 52)
           in of_int (roundHalfEven (x / ulp)) * ulp)"

text \<open>The literal \<^verbatim>\<open>0.15\<close> denotes the double nearest to it.\<close>

definition MOVEMENT_SPEED :: rat where
  "MOVEMENT_SPEED = roundDouble (15 / 100)"

definition RESERVATION_LOOKAHEAD :: nat where
  "RESERVATION_LOOKAHEAD = 6"

text \<open>\<^verbatim>\<open>Array.prototype.slice(start, stop)\<close> for indices that are not negative.\<close>

definition slice :: "'a list \<Rightarrow> nat \<Rightarrow> nat \<Rightarrow> 'a list" where
  "slice xs start stop = take (stop - start) (drop start xs)"

text \<open>
  \<^verbatim>\<open>isPathClear\<close>: no cell of the segment is reserved, and no other train stands on it or,
  while moving, is about to enter it.
\<close>

definition occupies :: "Train \<Rightarrow> cell \<Rightarrow> bool" where
  "occupies t cellId =
     ((currentPathIndex t < length (path t) \<and> path t ! currentPathIndex t = cellId) \<or>
      (state t = Moving \<and> currentPathIndex t + 1 < length (path t) \<and>
       path t ! (currentPathIndex t + 1) = cellId))"

definition isPathClear :: "cell list \<Rightarrow> string \<Rightarrow> Train list \<Rightarrow> cell set \<Rightarrow> bool" where
  "isPathClear pathSegment myTrainId allTrains reserved =
     list_all (\<lambda>cellId. cellId \<notin> reserved \<and>
                 \<not> list_ex (\<lambda>t. t_id t \<noteq> myTrainId \<and> occupies t cellId) allTrains)
       pathSegment"

text \<open>The test \<^verbatim>\<open>p && p.length > 0\<close> on a pathfinder result.\<close>

definition found :: "cell list option \<Rightarrow> bool" where
  "found r = (case r of None \<Rightarrow> False | Some p \<Rightarrow> length p > 0)"

text \<open>The branch for a dwelling train.\<close>

definition dwellingStep ::
  "(cell \<rightharpoonup> Cell) \<Rightarrow> Train list \<Rightarrow> Train \<Rightarrow> cell set \<Rightarrow> (Train \<times> cell set) option" where
  "dwellingStep grid trainsRef train globalReservations =
     (if dwellRemaining train > 0
      then Some (train\<lparr>dwellRemaining := dwellRemaining train - 1\<rparr>, globalReservations)
      else
        let newFrom = toId train;
            newTo = fromId train
        in case findPathAStar newFrom newTo grid trainsRef (Some (t_id train)) None False of
             None \<Rightarrow> None
           | Some returnPath \<Rightarrow>
               if found returnPath
               then Some (train\<lparr>fromId := newFrom, toId := newTo, path := the returnPath,
                                 currentPathIndex := 0, progress := 0, state := Waiting,
                                 waitingTime := 0, dwellRemaining := 0\<rparr>, globalReservations)
               else Some (train\<lparr>dwellRemaining := 10\<rparr>, globalReservations))"

text \<open>
  The advance of a moving train: the values of \<^verbatim>\<open>currentPathIndex\<close>, \<^verbatim>\<open>progress\<close>,
  \<^verbatim>\<open>state\<close> and \<^verbatim>\<open>waitingTime\<close> after the block \<^verbatim>\<open>if (state === 'moving')\<close>.  The progress
  of the train and the speed multiplier are doubles; the product and the sum of
  \<^verbatim>\<open>progress += MOVEMENT_SPEED * simulationSpeed\<close> are rounded each.
\<close>

definition movingStep :: "rat \<Rightarrow> Train \<Rightarrow> nat \<times> rat \<times> TrainState \<times> nat" where
  "movingStep simulationSpeed train =
     (if state train = Moving
      then let progress' =
                 roundDouble (progress train + roundDouble (MOVEMENT_SPEED * simulationSpeed))
           in if progress' \<ge> 1 then (currentPathIndex train + 1, 0, Waiting, 0)
              else (currentPathIndex train, progress', Moving, 0)
      else (currentPathIndex train, progress train, state train, waitingTime train))"

text \<open>
  The reroute attempts of a blocked waiting train: the new path and the window that the
  clearance re-check will use.  A strict reroute recomputes the window; a soft reroute
  replaces the path only.
\<close>

definition splice :: "cell list \<Rightarrow> nat \<Rightarrow> cell list \<Rightarrow> cell list" where
  "splice path' currentPathIndex' reroutePath =
     slice path' 0 (currentPathIndex' + 1) @ drop 1 reroutePath"

definition reroute ::
  "(cell \<rightharpoonup> Cell) \<Rightarrow> Train list \<Rightarrow> Train \<Rightarrow> nat \<Rightarrow> nat \<Rightarrow> cell set \<Rightarrow> cell list
     \<Rightarrow> (cell list \<times> cell list) option" where
  "reroute grid trainsRef train currentPathIndex' waitingTime' globalReservations segmentToReserve =
     (let path' = path train in
      case findPathAStar (path' ! currentPathIndex') (toId train) grid trainsRef (Some (t_id train))
             (Some globalReservations) True of
        None \<Rightarrow> None
      | Some strictReroutePath \<Rightarrow>
          if found strictReroutePath
          then let path'' = splice path' currentPathIndex' (the strictReroutePath);
                   newSegmentEndIdx = min (length path'') (currentPathIndex' + RESERVATION_LOOKAHEAD)
               in Some (path'', slice path'' (currentPathIndex' + 1) newSegmentEndIdx)
          else if waitingTime' mod 10 = 0
          then (case findPathAStar (path' ! currentPathIndex') (toId train) grid trainsRef
                       (Some (t_id train)) (Some globalReservations) False of
                  None \<Rightarrow> None
                | Some softReroutePath \<Rightarrow>
                    if found softReroutePath
                    then Some (splice path' currentPathIndex' (the softReroutePath), segmentToReserve)
                    else Some (path', segmentToReserve))
          else Some (path', segmentToReserve))"

text \<open>
  The branch \<^verbatim>\<open>if (state === 'waiting')\<close>.  \<^verbatim>\<open>currentCellId\<close> was read before the advance
  of a moving train and is passed in.
\<close>

definition waitingStep ::
  "(cell \<rightharpoonup> Cell) \<Rightarrow> Train list \<Rightarrow> Train \<Rightarrow> nat \<Rightarrow> rat \<Rightarrow> nat \<Rightarrow> cell \<Rightarrow> cell set
     \<Rightarrow> (Train \<times> cell set) option" where
  "waitingStep grid trainsRef train currentPathIndex' progress' waitingTime' currentCellId
       globalReservations =
     (if int currentPathIndex' \<ge> int (length (path train)) - 1
      then Some (train\<lparr>state := Arrived, progress := 0, currentPathIndex := currentPathIndex',
                        waitingTime := 0\<rparr>, globalReservations)
      else
        let segmentEndIdx = min (length (path train)) (currentPathIndex' + RESERVATION_LOOKAHEAD);
            segmentToReserve = slice (path train) (currentPathIndex' + 1) segmentEndIdx;
            blocked = \<not> isPathClear segmentToReserve (t_id train) trainsRef globalReservations
        in case (if blocked
                 then reroute grid trainsRef train currentPathIndex' waitingTime' globalReservations
                        segmentToReserve
                 else Some (path train, segmentToReserve)) of
             None \<Rightarrow> None
           | Some (path', segmentToReserve) \<Rightarrow>
               if isPathClear segmentToReserve (t_id train) trainsRef globalReservations
               then Some (train\<lparr>currentPathIndex := currentPathIndex', progress := progress',
                                 state := Moving, path := path', waitingTime := 0\<rparr>,
                          globalReservations \<union> set segmentToReserve)
               else Some (train\<lparr>currentPathIndex := currentPathIndex', progress := progress',
                                 state := Waiting, path := path', waitingTime := waitingTime' + 1\<rparr>,
                          insert currentCellId globalReservations))"

text \<open>
  The callback of \<^verbatim>\<open>activeTrains.map\<close>: the next state of one train and the reservation
  set after it.  \<^verbatim>\<open>trainsRef\<close> is the snapshot of all trains at the start of the tick.
\<close>

definition updateTrain ::
  "(cell \<rightharpoonup> Cell) \<Rightarrow> Train list \<Rightarrow> rat \<Rightarrow> cell set \<Rightarrow> Train \<Rightarrow> (Train \<times> cell set) option" where
  "updateTrain grid trainsRef simulationSpeed globalReservations train =
     (if state train = Dwelling then dwellingStep grid trainsRef train globalReservations
      else if state train = Arrived
      then (if isCyclic train
            then Some (train\<lparr>state := Dwelling, dwellRemaining := 30\<rparr>, globalReservations)
            else Some (train, globalReservations))
      else if currentPathIndex train \<ge> length (path train)
      then Some (train\<lparr>state := Arrived\<rparr>, globalReservations)
      else
        let currentCellId = path train ! currentPathIndex train
        in case movingStep simulationSpeed train of
             (currentPathIndex', progress', state', waitingTime') \<Rightarrow>
               if state' = Waiting
               then waitingStep grid trainsRef train currentPathIndex' progress' waitingTime'
                      currentCellId globalReservations
               else
                 let segmentEndIdx =
                       min (length (path train)) (currentPathIndex' + RESERVATION_LOOKAHEAD);
                     segmentToKeep = slice (path train) (currentPathIndex' + 1) segmentEndIdx
                 in Some (train\<lparr>currentPathIndex := currentPathIndex', progress := progress',
                                   state := state', waitingTime := waitingTime'\<rparr>,
                          if state' = Moving then globalReservations \<union> set segmentToKeep
                          else globalReservations))"

text \<open>
  The whole train phase of a tick: the trains are sorted by descending priority (the
  sort is stable), updated in that order with the reservation set threaded through, and
  the result is filtered and checked for deadlock.
\<close>

fun updateTrains ::
  "(cell \<rightharpoonup> Cell) \<Rightarrow> Train list \<Rightarrow> rat \<Rightarrow> cell set \<Rightarrow> Train list \<Rightarrow> Train list option" where
  "updateTrains grid trainsRef simulationSpeed globalReservations [] = Some []"
| "updateTrains grid trainsRef simulationSpeed globalReservations (train # rest) =
     (case updateTrain grid trainsRef simulationSpeed globalReservations train of
        None \<Rightarrow> None
      | Some (train', globalReservations') \<Rightarrow>
          (case updateTrains grid trainsRef simulationSpeed globalReservations' rest of
             None \<Rightarrow> None
           | Some rest' \<Rightarrow> Some (train' # rest')))"

definition tickTrains ::
  "(cell \<rightharpoonup> Cell) \<Rightarrow> Train list \<Rightarrow> rat \<Rightarrow> bool \<Rightarrow> (Train list \<times> bool) option" where
  "tickTrains grid trainsRef simulationSpeed globalDeadlockWarning =
     (let activeTrains = sort_key (\<lambda>t. - priority t) trainsRef
      in case updateTrains grid trainsRef simulationSpeed {} activeTrains of
           None \<Rightarrow> None
         | Some nextTrainsState \<Rightarrow> Some (finishTick globalDeadlockWarning nextTrainsState))"

section \<open>Properties of the per-train update\<close>

lemma found_sound:
  assumes "findPathAStar s e grid trains ign res strict = Some r"
  shows "found r \<longleftrightarrow> r \<noteq> None"
proof (cases r)
  case None
  then show ?thesis by (simp add: found_def)
next
  case (Some p)
  then have "p \<noteq> []" using findPathAStar_sound[of s e grid trains ign res strict p] assms by simp
  then show ?thesis using Some by (simp add: found_def)
qed

text \<open>Trains and grids used to instantiate the theorems.\<close>

definition cyclicTrain :: "TrainState \<Rightarrow> nat \<Rightarrow> Train" where
  "cyclicTrain s d =
     \<lparr> t_id = ''c'', t_name = ''c'', fromId = (0, 0), toId = (2, 0),
       path = [(0, 0), (1, 0), (2, 0)], currentPathIndex = 2,
       progress = 0, state = s, priority = 5, t_type = Batch, color = ''red'',
       waitingTime = 0, isCyclic = True, dwellRemaining = d \<rparr>"

text \<open>
  Claim C8.  A cyclic train that is arrived becomes dwelling with a dwell time of 30; a
  dwelling train with time left loses one unit per tick; at zero the return path from
  \<^verbatim>\<open>toId\<close> to \<^verbatim>\<open>fromId\<close> is searched (the search returns on a finite grid); when it is
  found the train becomes waiting with the endpoints swapped, the new path, index 0 and
  progress 0, and otherwise it stays dwelling with 10 units to wait.
\<close>

theorem cyclic_dwell_cycle:
  assumes "finite (dom grid)" and "isCyclic train"
  shows "(state train = Arrived \<longrightarrow>
            updateTrain grid trainsRef speed reservations train =
              Some (train\<lparr>state := Dwelling, dwellRemaining := 30\<rparr>, reservations))
       \<and> (state train = Dwelling \<and> dwellRemaining train > 0 \<longrightarrow>
            updateTrain grid trainsRef speed reservations train =
              Some (train\<lparr>dwellRemaining := dwellRemaining train - 1\<rparr>, reservations))
       \<and> (state train = Dwelling \<and> dwellRemaining train = 0 \<longrightarrow>
            (\<exists>r. findPathAStar (toId train) (fromId train) grid trainsRef (Some (t_id train))
                    None False = Some r \<and>
                 updateTrain grid trainsRef speed reservations train =
                   (case r of
                      Some returnPath \<Rightarrow>
                        Some (train\<lparr>fromId := toId train, toId := fromId train,
                                    path := returnPath, currentPathIndex := 0, progress := 0,
                                    state := Waiting, waitingTime := 0, dwellRemaining := 0\<rparr>,
                              reservations)
                    | None \<Rightarrow> Some (train\<lparr>dwellRemaining := 10\<rparr>, reservations))))"
proof (intro conjI impI)
  assume "state train = Arrived"
  then show "updateTrain grid trainsRef speed reservations train =
      Some (train\<lparr>state := Dwelling, dwellRemaining := 30\<rparr>, reservations)"
    using assms(2) by (simp add: updateTrain_def)
next
  assume "state train = Dwelling \<and> dwellRemaining train > 0"
  then show "updateTrain grid trainsRef speed reservations train =
      Some (train\<lparr>dwellRemaining := dwellRemaining train - 1\<rparr>, reservations)"
    by (simp add: updateTrain_def dwellingStep_def)
next
  assume a: "state train = Dwelling \<and> dwellRemaining train = 0"
  obtain r where r: "findPathAStar (toId train) (fromId train) grid trainsRef (Some (t_id train))
      None False = Some r"
    using findPathAStar_terminates[OF assms(1)] by blast
  have f: "found r \<longleftrightarrow> r \<noteq> None" using found_sound[OF r] .
  have "updateTrain grid trainsRef speed reservations train =
      (case r of
         Some returnPath \<Rightarrow>
           Some (train\<lparr>fromId := toId train, toId := fromId train,
                       path := returnPath, currentPathIndex := 0, progress := 0,
                       state := Waiting, waitingTime := 0, dwellRemaining := 0\<rparr>, reservations)
       | None \<Rightarrow> Some (train\<lparr>dwellRemaining := 10\<rparr>, reservations))"
    using a r f by (cases r) (simp_all add: updateTrain_def dwellingStep_def Let_def)
  then show "\<exists>r. findPathAStar (toId train) (fromId train) grid trainsRef (Some (t_id train))
        None False = Some r \<and>
      updateTrain grid trainsRef speed reservations train =
        (case r of
           Some returnPath \<Rightarrow>
             Some (train\<lparr>fromId := toId train, toId := fromId train,
                         path := returnPath, currentPathIndex := 0, progress := 0,
                         state := Waiting, waitingTime := 0, dwellRemaining := 0\<rparr>, reservations)
         | None \<Rightarrow> Some (train\<lparr>dwellRemaining := 10\<rparr>, reservations))"
    using r by blast
qed

theorem cyclic_dwell_cycle_witness:
  "finite (dom (rectGrid 3 1)) \<and> isCyclic (cyclicTrain Arrived 0)
   \<and> state (cyclicTrain Arrived 0) = Arrived
   \<and> updateTrain (rectGrid 3 1) [cyclicTrain Arrived 0] 1 {} (cyclicTrain Arrived 0)
       = Some (cyclicTrain Dwelling 30, {})
   \<and> updateTrain (rectGrid 3 1) [cyclicTrain Dwelling 30] 1 {} (cyclicTrain Dwelling 30)
       = Some (cyclicTrain Dwelling 29, {})
   \<and> findPathAStar (2, 0) (0, 0) (rectGrid 3 1) [cyclicTrain Dwelling 0] (Some ''c'') None False
       = Some (Some [(2, 0), (1, 0), (0, 0)])
   \<and> updateTrain (rectGrid 3 1) [cyclicTrain Dwelling 0] 1 {} (cyclicTrain Dwelling 0)
       = Some ((cyclicTrain Waiting 0)\<lparr>fromId := (2, 0), toId := (0, 0),
                 path := [(2, 0), (1, 0), (0, 0)], currentPathIndex := 0\<rparr>, {})"
proof -
  have f: "finite (dom (rectGrid 3 1))" by (rule finite_rectGrid)
  have c: "\<And>s d. isCyclic (cyclicTrain s d)" by (simp add: cyclicTrain_def)
  have p: "findPathAStar (2, 0) (0, 0) (rectGrid 3 1) [cyclicTrain Dwelling 0] (Some ''c'') None False
       = Some (Some [(2, 0), (1, 0), (0, 0)])"
    by code_simp
  have i: "t_id (cyclicTrain Dwelling 0) = ''c''" "toId (cyclicTrain Dwelling 0) = (2, 0)"
    "fromId (cyclicTrain Dwelling 0) = (0, 0)"
    by (simp_all add: cyclicTrain_def)
  show ?thesis
    using cyclic_dwell_cycle[OF f c, of Arrived 0 "[cyclicTrain Arrived 0]" 1 "{}"]
      cyclic_dwell_cycle[OF f c, of Dwelling 30 "[cyclicTrain Dwelling 30]" 1 "{}"]
      cyclic_dwell_cycle[OF f c, of Dwelling 0 "[cyclicTrain Dwelling 0]" 1 "{}"]
      f p
    unfolding i
    by (simp add: cyclicTrain_def)
qed


subsection \<open>Rounding\<close>

lemma roundHalfEven_nonneg: "0 \<le> x \<Longrightarrow> 0 \<le> roundHalfEven x"
  by (simp add: roundHalfEven_def Let_def)

lemma roundDouble_nonneg: "0 \<le> x \<Longrightarrow> 0 \<le> roundDouble x"
  by (simp add: roundDouble_def Let_def roundHalfEven_nonneg)

lemma pow_bitlen:
  assumes "0 < p"
  shows "power_int (2::rat) (bitlen p - 1) \<le> of_int p \<and> of_int p < power_int (2::rat) (bitlen p)"
proof -
  have b: "2 ^ nat (bitlen p - 1) \<le> p" "p < 2 ^ nat (bitlen p)" using bitlen_bounds[OF assms] by auto
  have g: "1 \<le> bitlen p" using assms by (auto simp: bitlen_alt_def)
  have "(of_int (2 ^ nat (bitlen p - 1)) :: rat) \<le> of_int p" using b(1) by (simp only: of_int_le_iff)
  moreover have "(of_int p :: rat) < of_int (2 ^ nat (bitlen p))" using b(2) by (simp only: of_int_less_iff)
  ultimately show ?thesis using g by (simp add: power_int_def)
qed

text \<open>\<^verbatim>\<open>binade\<close> computes the exponent of the power of two at or below its argument.\<close>

lemma binade_bounds:
  assumes "x \<noteq> 0"
  shows "power_int 2 (binade x) \<le> \<bar>x\<bar> \<and> \<bar>x\<bar> < power_int 2 (binade x + 1)"
proof -
  obtain p q where pq: "quotient_of \<bar>x\<bar> = (p, q)" by (cases "quotient_of \<bar>x\<bar>") auto
  have q: "0 < q" using quotient_of_denom_pos[OF pq] .
  have x: "\<bar>x\<bar> = of_int p / of_int q" using quotient_of_div[OF pq] .
  have "0 < \<bar>x\<bar>" using assms by simp
  then have p: "0 < p" using x q by (simp add: zero_less_divide_iff)
  let ?d = "bitlen p - bitlen q"
  have bp: "power_int (2::rat) (bitlen p - 1) \<le> of_int p" "of_int p < power_int (2::rat) (bitlen p)"
    using pow_bitlen[OF p] by auto
  have bq: "power_int (2::rat) (bitlen q - 1) \<le> of_int q" "of_int q < power_int (2::rat) (bitlen q)"
    using pow_bitlen[OF q] by auto
  have qpos: "(0::rat) < of_int q" using q by simp
  have lo: "power_int 2 (?d - 1) < \<bar>x\<bar>"
  proof -
    have "power_int (2::rat) (?d - 1) * of_int q < power_int 2 (?d - 1) * power_int 2 (bitlen q)"
      using bq(2) by (simp add: mult_strict_left_mono)
    also have "\<dots> = power_int 2 (bitlen p - 1)"
      by (simp add: power_int_add[symmetric])
    also have "\<dots> \<le> of_int p" using bp(1) .
    finally show ?thesis unfolding x using qpos by (simp add: pos_less_divide_eq)
  qed
  have hi: "\<bar>x\<bar> < power_int 2 (?d + 1)"
  proof -
    have "of_int p < power_int (2::rat) (bitlen p)" using bp(2) .
    also have "\<dots> = power_int 2 (?d + 1) * power_int 2 (bitlen q - 1)"
      by (simp add: power_int_add[symmetric])
    also have "\<dots> \<le> power_int 2 (?d + 1) * of_int q"
      using bq(1) by (simp add: mult_left_mono)
    finally show ?thesis unfolding x using qpos by (simp add: pos_divide_less_eq)
  qed
  show ?thesis
  proof (cases "power_int 2 ?d \<le> \<bar>x\<bar>")
    case True
    then have "binade x = ?d" by (simp add: binade_def pq Let_def)
    then show ?thesis using True hi by simp
  next
    case False
    then have "binade x = ?d - 1" by (simp add: binade_def pq Let_def)
    then show ?thesis using False lo by simp
  qed
qed

lemma movingStep_cases:
  assumes "state train = Moving" "0 \<le> progress train" "0 < speed"
  shows "movingStep speed train = (currentPathIndex train + 1, 0, Waiting, 0) \<or>
         (\<exists>p. movingStep speed train = (currentPathIndex train, p, Moving, 0) \<and> 0 \<le> p \<and> p < 1)"
proof -
  let ?p = "roundDouble (progress train + roundDouble (MOVEMENT_SPEED * speed))"
  have "0 \<le> MOVEMENT_SPEED" unfolding MOVEMENT_SPEED_def by (rule roundDouble_nonneg) simp
  then have "0 \<le> roundDouble (MOVEMENT_SPEED * speed)"
    using assms(3) by (intro roundDouble_nonneg) simp
  then have "0 \<le> ?p" using assms(2) by (intro roundDouble_nonneg) simp
  then show ?thesis using assms(1) by (cases "1 \<le> ?p") (simp_all add: movingStep_def Let_def)
qed


subsection \<open>What every update preserves\<close>

text \<open>
  Index and progress are within their ranges, the destination is the last cell of the
  path and occurs nowhere else in it, and a moving train has a next cell.
\<close>

definition trainInv :: "Train \<Rightarrow> bool" where
  "trainInv t =
     (currentPathIndex t < length (path t) \<and> 0 \<le> progress t \<and> progress t < 1 \<and>
      last (path t) = toId t \<and> toId t \<notin> set (butlast (path t)) \<and>
      (state t = Moving \<longrightarrow> currentPathIndex t + 1 < length (path t)))"

lemma splice_inv:
  assumes i: "i + 1 < length p" and lp: "last p = e" and bp: "e \<notin> set (butlast p)"
    and r: "r \<noteq> []" "hd r = p ! i" "last r = e" "e \<notin> set (butlast r)"
  shows "i + 1 < length (splice p i r) \<and> last (splice p i r) = e \<and>
         e \<notin> set (butlast (splice p i r))"
proof -
  have "p ! i \<in> set (butlast p)"
    using i by (metis Suc_eq_plus1 length_butlast less_diff_conv nth_butlast nth_mem)
  then have ne: "hd r \<noteq> last r" using bp r(2,3) by auto
  obtain a t where rt: "r = a # t" using r(1) by (cases r) auto
  have t: "t \<noteq> []" using ne rt by auto
  have sp: "splice p i r = take (i + 1) p @ t" by (simp add: splice_def slice_def rt)
  have tk: "take (i + 1) p = take (i + 1) (butlast p)"
    using i by (simp add: take_butlast)
  have "set (take (i + 1) p) \<subseteq> set (butlast p)" unfolding tk by (rule set_take_subset)
  then have e1: "e \<notin> set (take (i + 1) p)" using bp by auto
  have "butlast r = a # butlast t" using rt t by simp
  then have e2: "e \<notin> set (butlast t)" using r(4) by simp
  have "last t = e" using r(3) rt t by simp
  moreover have "i + 1 < length (take (i + 1) p @ t)" using i t by (cases t) simp_all
  moreover have "butlast (take (i + 1) p @ t) = take (i + 1) p @ butlast t"
    using t by (simp add: butlast_append)
  ultimately show ?thesis unfolding sp using t e1 e2 by simp
qed

lemma search_inv:
  assumes "findPathAStar s e grid trains ign res strict = Some r" "found r"
  shows "the r \<noteq> [] \<and> hd (the r) = s \<and> last (the r) = e \<and> e \<notin> set (butlast (the r))"
proof -
  obtain p where p: "r = Some p" using assms(2) by (cases r) (simp_all add: found_def)
  show ?thesis using findPathAStar_sound[OF assms(1)[unfolded p]] p by simp
qed

lemma reroute_total:
  assumes "finite (dom grid)"
  shows "\<exists>res. reroute grid trainsRef train i w gr seg = Some res"
proof -
  obtain r1 where r1: "findPathAStar (path train ! i) (toId train) grid trainsRef (Some (t_id train))
      (Some gr) True = Some r1"
    using findPathAStar_terminates[OF assms] by blast
  obtain r2 where r2: "findPathAStar (path train ! i) (toId train) grid trainsRef (Some (t_id train))
      (Some gr) False = Some r2"
    using findPathAStar_terminates[OF assms] by blast
  show ?thesis using r1 r2 by (simp add: reroute_def Let_def)
qed

lemma reroute_inv:
  assumes re: "reroute grid trainsRef train i w gr seg = Some (p', seg')"
    and i: "i + 1 < length (path train)"
    and lp: "last (path train) = toId train" and bp: "toId train \<notin> set (butlast (path train))"
  shows "i + 1 < length p' \<and> last p' = toId train \<and> toId train \<notin> set (butlast p')"
proof -
  let ?s = "findPathAStar (path train ! i) (toId train) grid trainsRef (Some (t_id train)) (Some gr)"
  obtain r1 where r1: "?s True = Some r1"
    using re by (cases "?s True") (simp_all add: reroute_def Let_def)
  show ?thesis
  proof (cases "found r1")
    case True
    then have "p' = splice (path train) i (the r1)"
      using re r1 by (simp add: reroute_def Let_def)
    then show ?thesis using splice_inv[OF i lp bp] search_inv[OF r1 True] by simp
  next
    case f1: False
    show ?thesis
    proof (cases "w mod 10 = 0")
      case False
      then have "p' = path train" using re r1 f1 by (simp add: reroute_def Let_def)
      then show ?thesis using i lp bp by simp
    next
      case True
      obtain r2 where r2: "?s False = Some r2"
        using re r1 f1 True by (cases "?s False") (simp_all add: reroute_def Let_def)
      show ?thesis
      proof (cases "found r2")
        case True
        then have "p' = splice (path train) i (the r2)"
          using re r1 f1 r2 \<open>w mod 10 = 0\<close> by (simp add: reroute_def Let_def)
        then show ?thesis using splice_inv[OF i lp bp] search_inv[OF r2 True] by simp
      next
        case False
        then have "p' = path train"
          using re r1 f1 r2 \<open>w mod 10 = 0\<close> by (simp add: reroute_def Let_def)
        then show ?thesis using i lp bp by simp
      qed
    qed
  qed
qed

lemma waitingStep_total:
  assumes "finite (dom grid)"
  shows "\<exists>res. waitingStep grid trainsRef train i p w c gr = Some res"
proof -
  obtain res where "reroute grid trainsRef train i w gr
      (slice (path train) (i + 1) (min (length (path train)) (i + RESERVATION_LOOKAHEAD))) = Some res"
    using reroute_total[OF assms] by blast
  then show ?thesis
    by (cases res) (simp add: waitingStep_def Let_def)
qed

lemma waitingStep_unfold:
  assumes "\<not> int i \<ge> int (length (path train)) - 1"
  shows "waitingStep grid trainsRef train i p w c gr =
     (case (if \<not> isPathClear (slice (path train) (i + 1)
                    (min (length (path train)) (i + RESERVATION_LOOKAHEAD)))
                  (t_id train) trainsRef gr
            then reroute grid trainsRef train i w gr
                   (slice (path train) (i + 1) (min (length (path train)) (i + RESERVATION_LOOKAHEAD)))
            else Some (path train,
                   slice (path train) (i + 1) (min (length (path train)) (i + RESERVATION_LOOKAHEAD)))) of
        None \<Rightarrow> None
      | Some (path', segmentToReserve) \<Rightarrow>
          if isPathClear segmentToReserve (t_id train) trainsRef gr
          then Some (train\<lparr>currentPathIndex := i, progress := p, state := Moving, path := path',
                            waitingTime := 0\<rparr>, gr \<union> set segmentToReserve)
          else Some (train\<lparr>currentPathIndex := i, progress := p, state := Waiting, path := path',
                            waitingTime := w + 1\<rparr>, insert c gr))"
  unfolding waitingStep_def Let_def using assms by (simp only: if_False)

lemma waitingStep_inv:
  assumes ws: "waitingStep grid trainsRef train i p w c gr = Some (t', gr')"
    and i: "i < length (path train)" and p: "0 \<le> p" "p < 1"
    and lp: "last (path train) = toId train" and bp: "toId train \<notin> set (butlast (path train))"
  shows "trainInv t'"
proof (cases "int i \<ge> int (length (path train)) - 1")
  case True
  then have "t' = train\<lparr>state := Arrived, progress := 0, currentPathIndex := i, waitingTime := 0\<rparr>"
    using ws by (simp add: waitingStep_def)
  then show ?thesis using i lp bp by (simp add: trainInv_def)
next
  case False
  then have i1: "i + 1 < length (path train)" by simp
  define seg where "seg = slice (path train) (i + 1) (min (length (path train)) (i + RESERVATION_LOOKAHEAD))"
  define R where "R = (if \<not> isPathClear seg (t_id train) trainsRef gr
      then reroute grid trainsRef train i w gr seg else Some (path train, seg))"
  have u: "waitingStep grid trainsRef train i p w c gr =
     (case R of None \<Rightarrow> None
      | Some (path', segmentToReserve) \<Rightarrow>
          if isPathClear segmentToReserve (t_id train) trainsRef gr
          then Some (train\<lparr>currentPathIndex := i, progress := p, state := Moving, path := path',
                            waitingTime := 0\<rparr>, gr \<union> set segmentToReserve)
          else Some (train\<lparr>currentPathIndex := i, progress := p, state := Waiting, path := path',
                            waitingTime := w + 1\<rparr>, insert c gr))"
    unfolding R_def seg_def by (rule waitingStep_unfold[OF False])
  obtain p' seg' where r: "R = Some (p', seg')"
    using ws u by (cases R) auto
  have l: "i + 1 < length p' \<and> last p' = toId train \<and> toId train \<notin> set (butlast p')"
  proof (cases "\<not> isPathClear seg (t_id train) trainsRef gr")
    case True
    then have "reroute grid trainsRef train i w gr seg = Some (p', seg')" using r R_def by simp
    then show ?thesis using reroute_inv[OF _ i1 lp bp] by simp
  next
    case False
    then show ?thesis using r R_def i1 lp bp by simp
  qed
  have "path t' = p' \<and> currentPathIndex t' = i \<and> progress t' = p \<and> toId t' = toId train"
    using ws u r by (auto split: if_splits)
  then show ?thesis using l p by (simp add: trainInv_def)
qed

lemma updateTrain_inv:
  assumes inv: "trainInv train" and sp: "0 < speed"
    and up: "updateTrain grid trainsRef speed reservations train = Some (train', reservations')"
  shows "trainInv train'"
proof -
  have i: "currentPathIndex train < length (path train)" and p: "0 \<le> progress train" "progress train < 1"
    and lp: "last (path train) = toId train" and bp: "toId train \<notin> set (butlast (path train))"
    using inv by (simp_all add: trainInv_def)
  consider (dwell) "state train = Dwelling" | (arrived) "state train = Arrived"
    | (moving) "state train = Moving" | (waiting) "state train = Waiting"
    by (cases "state train") auto
  then show ?thesis
  proof cases
    case dwell
    show ?thesis
    proof (cases "dwellRemaining train > 0")
      case True
      then have "train' = train\<lparr>dwellRemaining := dwellRemaining train - 1\<rparr>"
        using dwell up by (simp add: updateTrain_def dwellingStep_def)
      then show ?thesis using inv dwell by (simp add: trainInv_def)
    next
      case False
      let ?s = "findPathAStar (toId train) (fromId train) grid trainsRef (Some (t_id train)) None False"
      obtain r where r: "?s = Some r"
        using up dwell False by (cases ?s) (simp_all add: updateTrain_def dwellingStep_def Let_def)
      show ?thesis
      proof (cases "found r")
        case True
        then have "train' = train\<lparr>fromId := toId train, toId := fromId train, path := the r,
            currentPathIndex := 0, progress := 0, state := Waiting, waitingTime := 0,
            dwellRemaining := 0\<rparr>"
          using up dwell False r by (simp add: updateTrain_def dwellingStep_def Let_def)
        then show ?thesis using search_inv[OF r True] by (simp add: trainInv_def)
      next
        case nf: False
        then have "train' = train\<lparr>dwellRemaining := 10\<rparr>"
          using up dwell False r by (simp add: updateTrain_def dwellingStep_def Let_def)
        then show ?thesis using inv dwell by (simp add: trainInv_def)
      qed
    qed
  next
    case arrived
    then have "train' = train\<lparr>state := Dwelling, dwellRemaining := 30\<rparr> \<or> train' = train"
      using up by (auto simp: updateTrain_def split: if_splits)
    then show ?thesis using inv arrived by (auto simp: trainInv_def)
  next
    case waiting
    have "waitingStep grid trainsRef train (currentPathIndex train) (progress train)
        (waitingTime train) (path train ! currentPathIndex train) reservations = Some (train', reservations')"
      using up waiting i by (simp add: updateTrain_def movingStep_def Let_def)
    then show ?thesis using waitingStep_inv[OF _ i p lp bp] by simp
  next
    case moving
    have i1: "currentPathIndex train + 1 < length (path train)"
      using inv moving by (simp add: trainInv_def)
    from movingStep_cases[OF moving p(1) sp] show ?thesis
    proof
      assume m: "movingStep speed train = (currentPathIndex train + 1, 0, Waiting, 0)"
      have "waitingStep grid trainsRef train (currentPathIndex train + 1) 0 0
          (path train ! currentPathIndex train) reservations = Some (train', reservations')"
        using up moving i m by (simp add: updateTrain_def Let_def)
      then show ?thesis using waitingStep_inv[OF _ i1 _ _ lp bp] by simp
    next
      assume "\<exists>q. movingStep speed train = (currentPathIndex train, q, Moving, 0) \<and> 0 \<le> q \<and> q < 1"
      then obtain q where m: "movingStep speed train = (currentPathIndex train, q, Moving, 0)"
        and q: "0 \<le> q" "q < 1" by blast
      have "train' = train\<lparr>currentPathIndex := currentPathIndex train, progress := q,
          state := Moving, waitingTime := 0\<rparr>"
        using up moving i m by (simp add: updateTrain_def Let_def)
      then show ?thesis using inv q i1 by (simp add: trainInv_def)
    qed
  qed
qed

lemma updateTrain_total:
  assumes "finite (dom grid)"
  shows "\<exists>res. updateTrain grid trainsRef speed reservations train = Some res"
proof -
  obtain r where r: "findPathAStar (toId train) (fromId train) grid trainsRef (Some (t_id train))
      None False = Some r"
    using findPathAStar_terminates[OF assms] by blast
  have d: "\<exists>res. dwellingStep grid trainsRef train reservations = Some res"
    using r by (simp add: dwellingStep_def Let_def)
  obtain a b c e where m: "movingStep speed train = (a, b, c, e)"
    by (cases "movingStep speed train") auto
  have w: "\<exists>res. waitingStep grid trainsRef train a b e (path train ! currentPathIndex train)
      reservations = Some res"
    using waitingStep_total[OF assms] by blast
  show ?thesis using d w m by (auto simp: updateTrain_def Let_def)
qed


subsection \<open>A soft reroute never releases the train\<close>

text \<open>
  A train that is waiting after the advance, whose window is blocked, whose strict
  reroute fails and which adopts a soft reroute is not released in that tick: the window
  that is re-checked is the one of the old path, which is still blocked.  The train
  stays waiting, its waiting time grows by one, its path is the old prefix followed by
  the soft route, and the one cell that is reserved is the cell on which it began the
  tick.
\<close>

lemma soft_reroute_holds_train:
  assumes "currentPathIndex train < length (path train)"
    and "movingStep speed train = (i, p, Waiting, w)"
    and "i + 1 < length (path train)"
    and "\<not> isPathClear
           (slice (path train) (i + 1) (min (length (path train)) (i + RESERVATION_LOOKAHEAD)))
           (t_id train) trainsRef reservations"
    and "findPathAStar (path train ! i) (toId train) grid trainsRef
           (Some (t_id train)) (Some reservations) True = Some None"
    and "w mod 10 = 0"
    and "findPathAStar (path train ! i) (toId train) grid trainsRef
           (Some (t_id train)) (Some reservations) False = Some (Some softPath)"
  shows "updateTrain grid trainsRef speed reservations train =
           Some (train\<lparr>currentPathIndex := i, progress := p, state := Waiting,
                       path := slice (path train) 0 (i + 1) @ drop 1 softPath,
                       waitingTime := w + 1\<rparr>,
                 insert (path train ! currentPathIndex train) reservations)"
proof -
  let ?seg = "slice (path train) (i + 1) (min (length (path train)) (i + RESERVATION_LOOKAHEAD))"
  have nl: "\<not> int i \<ge> int (length (path train)) - 1" using assms(3) by simp
  have fs: "found (Some softPath)" using found_sound[OF assms(7)] by simp
  have r: "reroute grid trainsRef train i w reservations ?seg
      = Some (splice (path train) i softPath, ?seg)"
    using assms(5,6,7) fs by (simp add: reroute_def Let_def found_def)
  have w: "waitingStep grid trainsRef train i p w (path train ! currentPathIndex train) reservations =
        Some (train\<lparr>currentPathIndex := i, progress := p, state := Waiting,
                    path := splice (path train) i softPath, waitingTime := w + 1\<rparr>,
              insert (path train ! currentPathIndex train) reservations)"
    unfolding waitingStep_unfold[OF nl] using assms(4) r by simp
  have st: "state train \<noteq> Dwelling" "state train \<noteq> Arrived"
    using assms(2) by (auto simp: movingStep_def Let_def split: if_splits)
  have u: "updateTrain grid trainsRef speed reservations train =
      waitingStep grid trainsRef train i p w (path train ! currentPathIndex train) reservations"
    using assms(1,2) st by (simp add: updateTrain_def Let_def)
  show ?thesis unfolding u w by (simp add: splice_def)
qed

text \<open>
  A crossing: a corridor from \<open>(0, 1)\<close> to \<open>(4, 1)\<close> with a loop over \<open>(2, 2)\<close>, \<open>(3, 2)\<close> and
  \<open>(4, 2)\<close>, crossed at \<open>(2, 1)\<close> by a line from \<open>(2, 0)\<close> to \<open>(2, 2)\<close>.  The train on the
  line has the higher priority and has just started to move; the train in the corridor
  is moving with progress 0.9 and completes its step to \<open>(1, 1)\<close> in this tick.
\<close>

definition crossGrid :: "cell \<rightharpoonup> Cell" where
  "crossGrid =
     map_of (map (\<lambda>c. (c, trackCell (fst c) (snd c)))
       [(0, 1), (1, 1), (2, 1), (3, 1), (4, 1), (2, 0), (2, 2), (3, 2), (4, 2)])"

definition crossingTrain :: Train where
  "crossingTrain =
     \<lparr> t_id = ''a'', t_name = ''a'', fromId = (2, 0), toId = (2, 2),
       path = [(2, 0), (2, 1), (2, 2)], currentPathIndex = 0,
       progress = 0, state = Moving, priority = 9, t_type = Manual, color = ''red'',
       waitingTime = 0, isCyclic = False, dwellRemaining = 0 \<rparr>"

definition arrivingTrain :: Train where
  "arrivingTrain =
     \<lparr> t_id = ''b'', t_name = ''b'', fromId = (0, 1), toId = (4, 1),
       path = [(0, 1), (1, 1), (2, 1), (2, 2), (3, 2), (4, 2), (4, 1)], currentPathIndex = 0,
       progress = roundDouble (9 / 10), state = Moving, priority = 5, t_type = Manual,
       color = ''blue'', waitingTime = 0, isCyclic = False, dwellRemaining = 0 \<rparr>"

text \<open>
  Claim C10 at a failing input.  In one tick the train on the line is updated first
  and keeps the cells \<open>(2, 1)\<close> and \<open>(2, 2)\<close> reserved.  The train in the corridor arrives on \<open>(1, 1)\<close> and is
  waiting; its window is blocked, the strict search fails and the soft search finds the
  direct route, which replaces the rest of its path.  It stays waiting and its waiting
  time becomes 1, as the claim says, but the cell it reserves is \<open>(0, 1)\<close>, the cell it
  has left, and its current cell \<open>(1, 1)\<close> is not reserved.
\<close>

theorem soft_reroute_stale_reservation:
  "sort_key (\<lambda>t. - priority t) [arrivingTrain, crossingTrain] = [crossingTrain, arrivingTrain]
   \<and> map_option snd (updateTrain crossGrid [crossingTrain, arrivingTrain] 1 {} crossingTrain)
       = Some {(2, 1), (2, 2)}
   \<and> \<not> isPathClear [(2, 1), (2, 2), (3, 2), (4, 2), (4, 1)] ''b'' [crossingTrain, arrivingTrain]
         {(2, 1), (2, 2)}
   \<and> findPathAStar (1, 1) (4, 1) crossGrid [crossingTrain, arrivingTrain] (Some ''b'')
         (Some {(2, 1), (2, 2)}) True = Some None
   \<and> findPathAStar (1, 1) (4, 1) crossGrid [crossingTrain, arrivingTrain] (Some ''b'')
         (Some {(2, 1), (2, 2)}) False = Some (Some [(1, 1), (2, 1), (3, 1), (4, 1)])
   \<and> updateTrain crossGrid [crossingTrain, arrivingTrain] 1 {(2, 1), (2, 2)} arrivingTrain
       = Some (arrivingTrain\<lparr>currentPathIndex := 1, progress := 0, state := Waiting,
                 path := [(0, 1), (1, 1), (2, 1), (3, 1), (4, 1)], waitingTime := 1\<rparr>,
               {(0, 1), (2, 1), (2, 2)})
   \<and> (1, 1) \<notin> {(0, 1), (2, 1), (2 :: int, 2 :: int)}"
proof -
  have lt: "roundDouble (0 + roundDouble (MOVEMENT_SPEED * 1)) < 1" by code_simp
  have ms: "movingStep 1 crossingTrain
      = (0, roundDouble (0 + roundDouble (MOVEMENT_SPEED * 1)), Moving, 0)"
    using lt by (simp add: movingStep_def crossingTrain_def Let_def)
  have a: "map_option snd (updateTrain crossGrid [crossingTrain, arrivingTrain] 1 {} crossingTrain)
       = Some {(2, 1), (2, 2)}"
    using ms by (simp add: updateTrain_def crossingTrain_def Let_def slice_def RESERVATION_LOOKAHEAD_def)
  have c: "\<not> isPathClear [(2, 1), (2, 2), (3, 2), (4, 2), (4, 1)] ''b'' [crossingTrain, arrivingTrain]
         {(2, 1), (2, 2)}"
    by (simp add: isPathClear_def)
  have s: "findPathAStar (1, 1) (4, 1) crossGrid [crossingTrain, arrivingTrain] (Some ''b'')
         (Some {(2, 1), (2, 2)}) True = Some None"
    by code_simp
  have t: "findPathAStar (1, 1) (4, 1) crossGrid [crossingTrain, arrivingTrain] (Some ''b'')
         (Some {(2, 1), (2, 2)}) False = Some (Some [(1, 1), (2, 1), (3, 1), (4, 1)])"
    by code_simp
  have ge: "1 \<le> roundDouble (roundDouble (9 / 10) + roundDouble (MOVEMENT_SPEED * 1))"
    by code_simp
  have m: "movingStep 1 arrivingTrain = (1, 0, Waiting, 0)"
    using ge by (simp add: movingStep_def arrivingTrain_def Let_def)
  have f: "currentPathIndex arrivingTrain = 0" "t_id arrivingTrain = ''b''" "toId arrivingTrain = (4, 1)"
    "path arrivingTrain = [(0, 1), (1, 1), (2, 1), (2, 2), (3, 2), (4, 2), (4, 1)]"
    by (simp_all add: arrivingTrain_def)
  have u: "updateTrain crossGrid [crossingTrain, arrivingTrain] 1 {(2, 1), (2, 2)} arrivingTrain
       = Some (arrivingTrain\<lparr>currentPathIndex := 1, progress := 0, state := Waiting,
                 path := [(0, 1), (1, 1), (2, 1), (3, 1), (4, 1)], waitingTime := 1\<rparr>,
               {(0, 1), (2, 1), (2, 2)})"
    using soft_reroute_holds_train[where train = arrivingTrain and speed = 1 and i = 1 and p = 0
        and w = 0 and trainsRef = "[crossingTrain, arrivingTrain]" and reservations = "{(2, 1), (2, 2)}"
        and grid = crossGrid and softPath = "[(1, 1), (2, 1), (3, 1), (4, 1)]"]
      m c s t
    by (simp add: f slice_def RESERVATION_LOOKAHEAD_def)
  have o: "sort_key (\<lambda>t. - priority t) [arrivingTrain, crossingTrain]
      = [crossingTrain, arrivingTrain]"
    by (simp add: arrivingTrain_def crossingTrain_def)
  show ?thesis using o a c s t u by simp
qed

section \<open>Dispatch\<close>

record HistoryItem =
  h_id :: string
  h_time :: nat
  h_from :: string
  h_to :: string
  h_priority :: int
  h_type :: DispatchType
  h_isCyclic :: bool

record ScheduleItem =
  s_id :: string
  s_time :: nat
  s_from :: string
  s_to :: string
  s_priority :: int
  dispatched :: bool

record BatchItem =
  b_from :: string
  b_to :: string
  dispatchAt :: nat
  b_priority :: int
  b_isCyclic :: bool

text \<open>
  What one call of \<^verbatim>\<open>dispatchTrain\<close> draws from the clock and the random generator: the
  id, name and colour of the train and the id of the history entry.
\<close>

record Fresh =
  trainId :: string
  trainName :: string
  trainColor :: string
  histId :: string

text \<open>
  The effects a dispatch can have: the pending values of the \<^verbatim>\<open>trains\<close> and \<^verbatim>\<open>history\<close>
  state, and the messages shown to the user with \<^verbatim>\<open>alert\<close>.
\<close>

record Effects =
  trains :: "Train list"
  history :: "HistoryItem list"
  alerts :: "string list"

text \<open>
  \<^verbatim>\<open>dispatchTrain\<close>.  \<^verbatim>\<open>gridRef\<close> lists the grid record in key order (\<^verbatim>\<open>Object.values\<close>),
  \<^verbatim>\<open>trainsRef\<close> and \<^verbatim>\<open>timeRef\<close> are the values of the last render.  The function returns
  nothing and has no branch for a missing path.
\<close>

definition dispatchTrain ::
  "(cell \<times> Cell) list \<Rightarrow> Train list \<Rightarrow> nat \<Rightarrow> Fresh \<Rightarrow> string \<Rightarrow> string \<Rightarrow> int \<Rightarrow> DispatchType
     \<Rightarrow> bool \<Rightarrow> Effects \<Rightarrow> Effects option" where
  "dispatchTrain gridRef trainsRef timeRef fresh fromName toName priority' dispatchType isCyclic' eff =
     (if fromName = toName then Some eff
      else
        let stationsList = filter (\<lambda>c. c_type c = Station) (map snd gridRef);
            from = find (\<lambda>s. stationName s = Some fromName) stationsList;
            to = find (\<lambda>s. stationName s = Some toName) stationsList
        in case (from, to) of
             (Some from, Some to) \<Rightarrow>
               (case findPathAStar (c_id from) (c_id to) (map_of gridRef) trainsRef None None False of
                  None \<Rightarrow> None
                | Some None \<Rightarrow> Some eff
                | Some (Some path') \<Rightarrow>
                    let newTrain =
                          \<lparr> t_id = trainId fresh, t_name = trainName fresh,
                            fromId = c_id from, toId = c_id to, path = path',
                            currentPathIndex = 0, progress = 0, state = Waiting,
                            priority = priority', t_type = dispatchType,
                            color = trainColor fresh, waitingTime = 0, isCyclic = isCyclic',
                            dwellRemaining = 0 \<rparr>;
                        item =
                          \<lparr> h_id = histId fresh, h_time = timeRef, h_from = fromName,
                            h_to = toName, h_priority = priority', h_type = dispatchType,
                            h_isCyclic = isCyclic' \<rparr>
                    in Some (eff\<lparr>trains := trains eff @ [newTrain],
                                  history := item # history eff\<rparr>))
           | _ \<Rightarrow> Some eff)"

text \<open>
  The schedule phase of a tick: every item that is due and not yet dispatched is
  dispatched with type \<^verbatim>\<open>'schedule'\<close> and marked, whatever the dispatch did.
\<close>

fun dispatchSchedule ::
  "(cell \<times> Cell) list \<Rightarrow> Train list \<Rightarrow> nat \<Rightarrow> (ScheduleItem \<Rightarrow> Fresh) \<Rightarrow> nat
     \<Rightarrow> ScheduleItem list \<Rightarrow> Effects \<Rightarrow> (ScheduleItem list \<times> Effects) option" where
  "dispatchSchedule gridRef trainsRef timeRef fresh currentTime [] eff = Some ([], eff)"
| "dispatchSchedule gridRef trainsRef timeRef fresh currentTime (item # items) eff =
     (if \<not> dispatched item \<and> s_time item \<le> currentTime
      then (case dispatchTrain gridRef trainsRef timeRef (fresh item) (s_from item) (s_to item)
                   (s_priority item) Schedule False eff of
              None \<Rightarrow> None
            | Some eff' \<Rightarrow>
                (case dispatchSchedule gridRef trainsRef timeRef fresh currentTime items eff' of
                   None \<Rightarrow> None
                 | Some (items', eff'') \<Rightarrow> Some (item\<lparr>dispatched := True\<rparr> # items', eff'')))
      else (case dispatchSchedule gridRef trainsRef timeRef fresh currentTime items eff of
              None \<Rightarrow> None
            | Some (items', eff') \<Rightarrow> Some (item # items', eff')))"

text \<open>
  The batch phase of a tick: the due entries of the queue are dispatched with type
  \<^verbatim>\<open>'batch'\<close> in queue order and removed from the queue.
\<close>

fun dispatchAll ::
  "(cell \<times> Cell) list \<Rightarrow> Train list \<Rightarrow> nat \<Rightarrow> (BatchItem \<Rightarrow> Fresh) \<Rightarrow> BatchItem list \<Rightarrow> Effects
     \<Rightarrow> Effects option" where
  "dispatchAll gridRef trainsRef timeRef fresh [] eff = Some eff"
| "dispatchAll gridRef trainsRef timeRef fresh (item # items) eff =
     (case dispatchTrain gridRef trainsRef timeRef (fresh item) (b_from item) (b_to item)
             (b_priority item) Batch (b_isCyclic item) eff of
        None \<Rightarrow> None
      | Some eff' \<Rightarrow> dispatchAll gridRef trainsRef timeRef fresh items eff')"

definition dispatchBatch ::
  "(cell \<times> Cell) list \<Rightarrow> Train list \<Rightarrow> nat \<Rightarrow> (BatchItem \<Rightarrow> Fresh) \<Rightarrow> nat \<Rightarrow> BatchItem list
     \<Rightarrow> Effects \<Rightarrow> (BatchItem list \<times> Effects) option" where
  "dispatchBatch gridRef trainsRef timeRef fresh currentTime batchQueue eff =
     (let toDispatch = filter (\<lambda>item. dispatchAt item \<le> currentTime) batchQueue
      in if length toDispatch > 0
         then (case dispatchAll gridRef trainsRef timeRef fresh toDispatch eff of
                 None \<Rightarrow> None
               | Some eff' \<Rightarrow>
                   Some (filter (\<lambda>item. dispatchAt item > currentTime) batchQueue, eff'))
         else Some (batchQueue, eff))"

text \<open>Two stations with no track between them.\<close>

definition stationCell :: "int \<Rightarrow> int \<Rightarrow> string \<Rightarrow> Cell" where
  "stationCell x y n =
     \<lparr> c_x = x, c_y = y, c_type = Station, stationName = Some n, c_id = getCellId x y \<rparr>"

definition emptyCell :: "int \<Rightarrow> int \<Rightarrow> Cell" where
  "emptyCell x y =
     \<lparr> c_x = x, c_y = y, c_type = Empty, stationName = None, c_id = getCellId x y \<rparr>"

definition severedGrid :: "(cell \<times> Cell) list" where
  "severedGrid =
     [((0, 0), stationCell 0 0 ''A''), ((1, 0), emptyCell 1 0), ((2, 0), stationCell 2 0 ''B'')]"

definition someFresh :: Fresh where
  "someFresh = \<lparr> trainId = ''man-1'', trainName = ''m'', trainColor = ''#ef4444'', histId = ''hist-1'' \<rparr>"

definition noEffects :: Effects where
  "noEffects = \<lparr> trains = [], history = [], alerts = [] \<rparr>"

definition dueItem :: ScheduleItem where
  "dueItem = \<lparr> s_id = ''s1'', s_time = 1, s_from = ''A'', s_to = ''B'', s_priority = 5,
               dispatched = False \<rparr>"

definition dueBatch :: BatchItem where
  "dueBatch = \<lparr> b_from = ''A'', b_to = ''B'', dispatchAt = 1, b_priority = 5, b_isCyclic = True \<rparr>"

text \<open>
  Claim C5 at a failing input.  Between two existing, distinct stations without a path
  a manual dispatch changes nothing and shows no message, exactly as a scheduled or a
  batch dispatch; the schedule item is marked dispatched and the batch entry leaves
  the queue.
\<close>

theorem dispatch_without_path:
  "findPathAStar (0, 0) (2, 0) (map_of severedGrid) [] None None False = Some None
   \<and> dispatchTrain severedGrid [] 0 someFresh ''A'' ''B'' 5 Manual False noEffects = Some noEffects
   \<and> dispatchTrain severedGrid [] 0 someFresh ''A'' ''B'' 5 Schedule False noEffects = Some noEffects
   \<and> dispatchTrain severedGrid [] 0 someFresh ''A'' ''B'' 5 Batch False noEffects = Some noEffects
   \<and> dispatchSchedule severedGrid [] 0 (\<lambda>_. someFresh) 1 [dueItem] noEffects
        = Some ([dueItem\<lparr>dispatched := True\<rparr>], noEffects)
   \<and> dispatchBatch severedGrid [] 0 (\<lambda>_. someFresh) 1 [dueBatch] noEffects = Some ([], noEffects)"
proof -
  have p: "findPathAStar (0, 0) (2, 0) (map_of severedGrid) [] None None False = Some None"
    by code_simp
  have s: "filter (\<lambda>c. c_type c = Station) (map snd severedGrid)
      = [stationCell 0 0 ''A'', stationCell 2 0 ''B'']"
    by (simp add: severedGrid_def stationCell_def emptyCell_def)
  have d: "\<And>ty cyc. dispatchTrain severedGrid [] 0 someFresh ''A'' ''B'' 5 ty cyc noEffects
      = Some noEffects"
    unfolding dispatchTrain_def s using p
    by (simp add: stationCell_def getCellId_def Let_def)
  show ?thesis using p d
    by (simp add: dispatchBatch_def dueItem_def dueBatch_def)
qed

section \<open>The trains of a running simulation\<close>

text \<open>
  The \<^verbatim>\<open>trains\<close> state is written in two places only: \<^verbatim>\<open>dispatchTrain\<close> appends a new
  train, and the tick replaces every train by its update.  The trains that a tick can
  receive are therefore the trains that a dispatch has created, updated any number of
  times, on any grid, beside any other trains, under any reservations and at any
  positive speed.
\<close>

inductive activeTrain :: "Train \<Rightarrow> bool" where
  dispatched:
    "dispatchTrain gridRef trainsRef timeRef fresh fromName toName priority' dispatchType isCyclic' eff
       = Some eff' \<Longrightarrow>
     trains eff' = trains eff @ [train] \<Longrightarrow> activeTrain train"
| updated:
    "activeTrain train \<Longrightarrow> 0 < simulationSpeed \<Longrightarrow>
     updateTrain grid trainsRef simulationSpeed reservations train = Some (train', reservations') \<Longrightarrow>
     activeTrain train'"

text \<open>Two stations joined by one track cell.\<close>

definition lineGrid :: "(cell \<times> Cell) list" where
  "lineGrid =
     [((0, 0), stationCell 0 0 ''A''), ((1, 0), trackCell 1 0), ((2, 0), stationCell 2 0 ''B'')]"

definition lineTrain :: "TrainState \<Rightarrow> Train" where
  "lineTrain s =
     \<lparr> t_id = ''man-1'', t_name = ''m'', fromId = (0, 0), toId = (2, 0),
       path = [(0, 0), (1, 0), (2, 0)], currentPathIndex = 0, progress = 0, state = s,
       priority = 5, t_type = Manual, color = ''#ef4444'', waitingTime = 0, isCyclic = False,
       dwellRemaining = 0 \<rparr>"

lemma dispatchTrain_inv:
  assumes "dispatchTrain gridRef trainsRef timeRef fresh fromName toName priority' dispatchType isCyclic' eff
       = Some eff'"
    and "trains eff' = trains eff @ [train]"
  shows "trainInv train"
  using assms
  by (auto simp: dispatchTrain_def Let_def trainInv_def split: if_splits option.splits
      dest!: findPathAStar_sound)

lemma activeTrain_inv: "activeTrain train \<Longrightarrow> trainInv train"
proof (induction rule: activeTrain.induct)
  case (dispatched gridRef trainsRef timeRef fresh fromName toName priority' dispatchType isCyclic' eff eff' train)
  then show ?case by (rule dispatchTrain_inv)
next
  case (updated train simulationSpeed grid trainsRef reservations train' reservations')
  then show ?case using updateTrain_inv by blast
qed

text \<open>
  Claim C9.  Every train that a tick can receive has its index and its progress within
  their ranges, and for every positive speed multiplier its update (which returns on a
  finite grid) is a train within the ranges again.
\<close>

theorem index_and_progress_bounds:
  assumes "activeTrain train" and "finite (dom grid)" and "0 < simulationSpeed"
  shows "currentPathIndex train < length (path train) \<and> 0 \<le> progress train \<and> progress train < 1 \<and>
         (\<exists>train' reservations'.
            updateTrain grid trainsRef simulationSpeed reservations train = Some (train', reservations') \<and>
            currentPathIndex train' < length (path train') \<and>
            0 \<le> progress train' \<and> progress train' < 1)"
proof -
  have i: "trainInv train" using activeTrain_inv[OF assms(1)] .
  obtain res where "updateTrain grid trainsRef simulationSpeed reservations train = Some res"
    using updateTrain_total[OF assms(2)] by blast
  then obtain train' reservations' where
    u: "updateTrain grid trainsRef simulationSpeed reservations train = Some (train', reservations')"
    by (cases res) auto
  have "trainInv train'" using updateTrain_inv[OF i assms(3) u] .
  then show ?thesis using i u by (simp add: trainInv_def)
qed

theorem index_and_progress_bounds_witness:
  "activeTrain (lineTrain Moving)
   \<and> finite (dom (map_of lineGrid)) \<and> (0 :: rat) < 1
   \<and> currentPathIndex (lineTrain Moving) < length (path (lineTrain Moving))
   \<and> 0 \<le> progress (lineTrain Moving) \<and> progress (lineTrain Moving) < 1
   \<and> (\<exists>train' reservations'.
         updateTrain (map_of lineGrid) [lineTrain Moving] 1 {} (lineTrain Moving)
           = Some (train', reservations') \<and>
         currentPathIndex train' < length (path train') \<and>
         0 \<le> progress train' \<and> progress train' < 1)"
proof -
  have p: "findPathAStar (0, 0) (2, 0) (map_of lineGrid) [] None None False
      = Some (Some [(0, 0), (1, 0), (2, 0)])"
    by code_simp
  have s: "filter (\<lambda>c. c_type c = Station) (map snd lineGrid)
      = [stationCell 0 0 ''A'', stationCell 2 0 ''B'']"
    by (simp add: lineGrid_def stationCell_def trackCell_def)
  have d: "dispatchTrain lineGrid [] 0 someFresh ''A'' ''B'' 5 Manual False noEffects
      = Some (noEffects\<lparr>trains := trains noEffects @ [lineTrain Waiting],
            history := \<lparr> h_id = ''hist-1'', h_time = 0, h_from = ''A'', h_to = ''B'',
              h_priority = 5, h_type = Manual, h_isCyclic = False \<rparr> # history noEffects\<rparr>)"
    unfolding dispatchTrain_def s using p
    by (simp add: stationCell_def getCellId_def Let_def lineTrain_def someFresh_def)
  have w: "activeTrain (lineTrain Waiting)"
    by (rule activeTrain.dispatched[OF d]) simp
  have c: "isPathClear [(1, 0), (2, 0)] ''man-1'' [lineTrain Waiting] {}"
    by (simp add: isPathClear_def lineTrain_def)
  have u: "updateTrain (map_of lineGrid) [lineTrain Waiting] 1 {} (lineTrain Waiting)
      = Some (lineTrain Moving, {(1, 0), (2, 0)})"
    using c
    by (simp add: updateTrain_def movingStep_def waitingStep_def lineTrain_def Let_def slice_def
        RESERVATION_LOOKAHEAD_def insert_commute)
  have a: "activeTrain (lineTrain Moving)"
    by (rule activeTrain.updated[OF w _ u]) simp
  have f: "finite (dom (map_of lineGrid))" by (rule finite_dom_map_of)
  show ?thesis
    using index_and_progress_bounds[OF a f, of 1 "[lineTrain Moving]" "{}"] a f by simp
qed

section \<open>Shortest paths on an obstacle-free grid\<close>

definition manhattan :: "cell \<Rightarrow> cell \<Rightarrow> int" where
  "manhattan a b = \<bar>fst a - fst b\<bar> + \<bar>snd a - snd b\<bar>"

text \<open>
  A search without other trains and without reservations, between cells whose ids are
  read back as they were built: the step cost is one plus the surcharge for a change of
  direction.
\<close>

definition freeCtx :: "SearchCtx \<Rightarrow> cell \<Rightarrow> bool" where
  "freeCtx ctx s =
     (occupiedCells ctx = {} \<and> nearCongestionCells ctx = {} \<and> reservedCells ctx = None \<and>
      endNode ctx = endId ctx \<and> parseCellId (endId ctx) = endId ctx \<and> parseCellId s = s)"

text \<open>
  Cells are compared with the start \<open>s\<close>: a cell is on an axis when it shares a
  coordinate with \<open>s\<close>; \<open>predx\<close> and \<open>predy\<close> are its neighbours one step closer to \<open>s\<close>;
  \<open>lowerBound\<close> is the least cost any route from \<open>s\<close> can have there.
\<close>

definition onAxis :: "cell \<Rightarrow> cell \<Rightarrow> bool" where
  "onAxis s c = (fst c = fst s \<or> snd c = snd s)"

definition predx :: "cell \<Rightarrow> cell \<Rightarrow> cell" where
  "predx s c = (fst c - sgn (fst c - fst s), snd c)"

definition predy :: "cell \<Rightarrow> cell \<Rightarrow> cell" where
  "predy s c = (fst c, snd c - sgn (snd c - snd s))"

definition axisDir :: "cell \<Rightarrow> cell \<Rightarrow> int \<times> int" where
  "axisDir s c = (sgn (fst c - fst s), sgn (snd c - snd s))"

definition lowerBound :: "cell \<Rightarrow> cell \<Rightarrow> rat" where
  "lowerBound s c = of_int (manhattan s c) + (if onAxis s c then 0 else 1 / 2)"

text \<open>The direction in which a node was entered.\<close>

definition dirOf :: "AStarNode \<Rightarrow> AStarNode \<Rightarrow> int \<times> int" where
  "dirOf p n = (n_x n - n_x p, n_y n - n_y p)"

text \<open>The bounding box of start and goal.\<close>

definition box :: "cell \<Rightarrow> cell \<Rightarrow> cell set" where
  "box s e = {c. min (fst s) (fst e) \<le> fst c \<and> fst c \<le> max (fst s) (fst e) \<and>
                 min (snd s) (snd e) \<le> snd c \<and> snd c \<le> max (snd s) (snd e)}"

lemma free_moveCost: "freeCtx ctx s \<Longrightarrow> moveCost ctx p nx ny = 1 + turnPenalty p nx ny"
  by (simp add: moveCost_decomp freeCtx_def isReserved_def)

lemma free_admissible: "freeCtx ctx s \<Longrightarrow> admissible ctx c = traversable ctx c"
  by (simp add: admissible_def freeCtx_def isReserved_def)

lemma genNode_id_free: "freeCtx ctx s \<Longrightarrow> genNode ctx s n \<Longrightarrow> n_id n = (n_x n, n_y n)"
  using genNode_id by (simp add: freeCtx_def)

lemma turnPenalty_cases: "turnPenalty p nx ny = 0 \<or> turnPenalty p nx ny = 1 / 2"
  by (simp add: turnPenalty_def split: option.split)

lemma turnPenalty_zero:
  "turnPenalty p nx ny = 0 \<longleftrightarrow>
     (\<forall>q. n_parent p = Some q \<longrightarrow> (nx - n_x p, ny - n_y p) = dirOf q p)"
  by (auto simp: turnPenalty_def dirOf_def split: option.split)

lemma gen_hf:
  assumes "freeCtx ctx s" "genNode ctx s n"
  shows "n_h n = of_int (manhattan (n_id n) (endId ctx)) \<and> n_f n = n_g n + n_h n"
  using assms(2,1)
  by (induction rule: genNode.induct)
     (simp_all add: getHeuristic_def manhattan_def freeCtx_def)

lemma gen_noparent:
  assumes "genNode ctx s n" "n_parent n = None"
  shows "n = startNodeOf s (endId ctx)"
  using assms by (induction rule: genNode.induct) simp_all

lemma gen_parent:
  assumes "freeCtx ctx s" "genNode ctx s n" "n_parent n = Some p"
  shows "genNode ctx s p \<and> adjacent4 (n_id p) (n_id n) \<and>
         n_g n = n_g p + 1 + turnPenalty p (n_x n) (n_y n)"
  using assms(2,3,1)
proof (cases rule: genNode.cases)
  case gen_start
  then show ?thesis using assms(3) by simp
next
  case (gen_step p' c)
  then have "p' = p" using assms(3) by simp
  then show ?thesis
    using gen_step neighbors_adjacent[OF gen_step(3)] genNode_id_free[OF assms(1) gen_step(2)] assms(1)
    by (cases c) (simp add: free_moveCost)
qed

lemma manhattan_adjacent: "adjacent4 a b \<Longrightarrow> \<bar>manhattan s b - manhattan s a\<bar> \<le> 1"
  unfolding adjacent4_def manhattan_def by linarith

lemma gen_len:
  assumes "freeCtx ctx s" "genNode ctx s n"
  shows "of_nat (length (reconstructPath n) - 1) \<le> n_g n \<and>
         manhattan s (n_id n) \<le> int (length (reconstructPath n)) - 1"
  using assms(2,1)
proof (induction rule: genNode.induct)
  case gen_start
  then show ?case by (simp add: manhattan_def)
next
  case (gen_step p c)
  obtain nx ny where c: "c = (nx, ny)" by (cases c) auto
  have ne: "reconstructPath p \<noteq> []" using genNode_path[OF gen_step(1)] by simp
  have adj: "adjacent4 (n_id p) c"
    using neighbors_adjacent[OF gen_step(2)] genNode_id_free[OF assms(1) gen_step(1)] by simp
  have m: "manhattan s c \<le> manhattan s (n_id p) + 1" using manhattan_adjacent[OF adj, of s] by simp
  have l: "length (reconstructPath p) - 1 + 1 = length (reconstructPath p)" using ne
    by (cases "reconstructPath p") auto
  have g: "of_nat (length (reconstructPath p) - 1) \<le> n_g p" using gen_step by simp
  have "of_nat (length (reconstructPath p)) \<le> n_g p + 1 + turnPenalty p nx ny"
    using g l turnPenalty_nonneg[of p nx ny]
    by (metis (no_types, opaque_lifting) add.commute add_increasing2 add_le_cancel_left
        of_nat_1 of_nat_add)
  moreover have "manhattan s (nx, ny) \<le> int (length (reconstructPath p))"
    using m gen_step c by simp
  ultimately show ?case using c gen_step(5) by (simp add: free_moveCost)
qed

lemma gen_g_ge_dist:
  assumes "freeCtx ctx s" "genNode ctx s n"
  shows "of_int (manhattan s (n_id n)) \<le> n_g n"
proof -
  have a: "of_nat (length (reconstructPath n) - 1) \<le> n_g n"
    and b: "manhattan s (n_id n) \<le> int (length (reconstructPath n)) - 1"
    using gen_len[OF assms] by auto
  have ne: "reconstructPath n \<noteq> []" using genNode_path[OF assms(2)] by simp
  then have "int (length (reconstructPath n)) - 1 = int (length (reconstructPath n) - 1)"
    by (cases "reconstructPath n") auto
  then have "(of_int (manhattan s (n_id n)) :: rat) \<le> of_nat (length (reconstructPath n) - 1)"
    using b by (metis of_int_le_iff of_int_of_nat_eq)
  then show ?thesis using a by simp
qed


lemma manhattan_self [simp]: "manhattan s s = 0"
  by (simp add: manhattan_def)

lemma manhattan_zero: "manhattan s c = 0 \<longleftrightarrow> c = s"
  unfolding manhattan_def by (cases s, cases c) auto

lemma neighbors_unit:
  assumes "(nx, ny) \<in> set (neighbors p)"
  shows "(nx - n_x p, ny - n_y p) \<in> {(0, -1), (0, 1), (-1, 0), (1, 0)}"
  using assms by (auto simp: neighbors_def)

lemma gen_straight:
  assumes "freeCtx ctx s" "genNode ctx s n"
  shows "n_g n = of_int (manhattan s (n_id n)) \<longrightarrow>
         onAxis s (n_id n) \<and> (n_parent n = None \<longrightarrow> n_id n = s) \<and>
         (\<forall>p. n_parent n = Some p \<longrightarrow>
            n_id n \<noteq> s \<and> dirOf p n = axisDir s (n_id n) \<and>
            n_g p = of_int (manhattan s (n_id p)))"
  using assms(2,1)
proof (induction rule: genNode.induct)
  case gen_start
  then show ?case by (simp add: onAxis_def)
next
  case (gen_step p c)
  obtain nx ny where c: "c = (nx, ny)" by (cases c) auto
  obtain sx sy where s: "s = (sx, sy)" by (cases s) auto
  have idp: "n_id p = (n_x p, n_y p)" using genNode_id_free[OF assms(1) gen_step(1)] .
  have adj: "adjacent4 (n_id p) c"
    using neighbors_adjacent[OF gen_step(2)] idp by simp
  have unit: "(nx - n_x p, ny - n_y p) \<in> {(0, -1), (0, 1), (-1, 0), (1, 0)}"
    using neighbors_unit gen_step(2) c by simp
  show ?case
  proof (intro impI)
    assume eq: "n_g (neighborNode ctx p (fst c) (snd c)) =
        of_int (manhattan s (n_id (neighborNode ctx p (fst c) (snd c))))"
    then have e: "n_g p + 1 + turnPenalty p nx ny = of_int (manhattan s c)"
      using c gen_step(5) by (simp add: free_moveCost)
    have gp: "of_int (manhattan s (n_id p)) \<le> n_g p"
      using gen_g_ge_dist[OF gen_step(5) gen_step(1)] .
    have m: "manhattan s c \<le> manhattan s (n_id p) + 1"
      using manhattan_adjacent[OF adj, of s] by simp
    then have m': "(of_int (manhattan s c) :: rat) \<le> of_int (manhattan s (n_id p)) + 1"
      by (metis of_int_1 of_int_add of_int_le_iff)
    have tp: "turnPenalty p nx ny = 0" using e gp m' turnPenalty_nonneg[of p nx ny] by linarith
    have gp': "n_g p = of_int (manhattan s (n_id p))" using e gp m' tp by linarith
    have "(of_int (manhattan s c) :: rat) = of_int (manhattan s (n_id p)) + 1"
      using e gp' tp by simp
    then have dc: "manhattan s c = manhattan s (n_id p) + 1"
      by (metis of_int_1 of_int_add of_int_eq_iff)
    have IH: "onAxis s (n_id p)" "n_parent p = None \<longrightarrow> n_id p = s"
      "\<forall>q. n_parent p = Some q \<longrightarrow> n_id p \<noteq> s \<and> dirOf q p = axisDir s (n_id p)"
      using gen_step(4)[OF gen_step(5)] gp' by auto
    have cs: "c \<noteq> s"
    proof
      assume "c = s"
      then have "manhattan s (n_id p) + 1 = 0" using dc by simp
      then show False unfolding manhattan_def by linarith
    qed
    have main: "onAxis s c \<and> (nx - n_x p, ny - n_y p) = axisDir s c"
    proof (cases "n_parent p")
      case None
      then have "n_id p = s" using IH(2) by simp
      then have "n_x p = sx" "n_y p = sy" using idp s by auto
      then show ?thesis using unit unfolding onAxis_def axisDir_def c s by auto
    next
      case (Some q)
      then have d: "dirOf q p = axisDir s (n_id p)" and ps: "n_id p \<noteq> s" using IH(3) by auto
      have "(nx - n_x p, ny - n_y p) = dirOf q p"
        using tp Some by (simp add: turnPenalty_zero)
      then have st: "(nx - n_x p, ny - n_y p) = axisDir s (n_x p, n_y p)" using d idp by simp
      show ?thesis
        using st IH(1) ps unfolding idp onAxis_def axisDir_def c s
        by (auto simp: sgn_if split: if_splits)
    qed
    show "onAxis s (n_id (neighborNode ctx p (fst c) (snd c))) \<and>
      (n_parent (neighborNode ctx p (fst c) (snd c)) = None \<longrightarrow>
        n_id (neighborNode ctx p (fst c) (snd c)) = s) \<and>
      (\<forall>pa. n_parent (neighborNode ctx p (fst c) (snd c)) = Some pa \<longrightarrow>
        n_id (neighborNode ctx p (fst c) (snd c)) \<noteq> s \<and>
        dirOf pa (neighborNode ctx p (fst c) (snd c)) =
          axisDir s (n_id (neighborNode ctx p (fst c) (snd c))) \<and>
        n_g pa = of_int (manhattan s (n_id pa)))"
      using main cs gp' c by (simp add: dirOf_def)
  qed
qed

lemma gen_lowerBound:
  assumes "freeCtx ctx s" "genNode ctx s n"
  shows "lowerBound s (n_id n) \<le> n_g n"
proof (cases "onAxis s (n_id n)")
  case True
  then show ?thesis using gen_g_ge_dist[OF assms] by (simp add: lowerBound_def)
next
  case False
  have ge: "of_int (manhattan s (n_id n)) \<le> n_g n" using gen_g_ge_dist[OF assms] .
  have ne: "n_g n \<noteq> of_int (manhattan s (n_id n))" using gen_straight[OF assms] False by blast
  obtain k :: nat where k: "n_g n = of_nat k / 2"
    using genNode_halfnat[OF assms(2)] unfolding halfnat_def by blast
  have m0: "0 \<le> manhattan s (n_id n)" by (simp add: manhattan_def)
  then obtain j :: nat where j: "manhattan s (n_id n) = int j" using nonneg_int_cases by blast
  have "(of_nat (2 * j) :: rat) < of_nat k" using ge ne unfolding k j by simp
  then have "2 * j < k" using of_nat_less_iff by blast
  then have "2 * j + 1 \<le> k" by simp
  then have "(of_nat (2 * j + 1) :: rat) \<le> of_nat k" using of_nat_le_iff by blast
  then have "(of_nat j :: rat) + 1 / 2 \<le> of_nat k / 2" by simp
  then show ?thesis using False unfolding lowerBound_def k j by simp
qed


lemma pred_cases:
  assumes "adjacent4 p c" "manhattan s c = manhattan s p + 1" "\<not> onAxis s c"
  shows "p = predx s c \<or> p = predy s c"
proof -
  obtain px py cx cy sx sy where v: "p = (px, py)" "c = (cx, cy)" "s = (sx, sy)"
    by (cases p, cases c, cases s) auto
  have a: "\<bar>px - cx\<bar> + \<bar>py - cy\<bar> = 1" using assms(1) unfolding adjacent4_def v by simp
  have m: "\<bar>sx - cx\<bar> + \<bar>sy - cy\<bar> = \<bar>sx - px\<bar> + \<bar>sy - py\<bar> + 1"
    using assms(2) unfolding manhattan_def v by simp
  have o: "cx \<noteq> sx" "cy \<noteq> sy" using assms(3) unfolding onAxis_def v by auto
  have "(px = cx - sgn (cx - sx) \<and> py = cy) \<or> (px = cx \<and> py = cy - sgn (cy - sy))"
    using a m o by (auto simp: sgn_if split: if_splits) 
  then show ?thesis unfolding predx_def predy_def v by simp
qed

lemma gen_half:
  assumes "freeCtx ctx s" "genNode ctx s n" "\<not> onAxis s (n_id n)"
    and "n_g n = of_int (manhattan s (n_id n)) + 1 / 2"
  shows "\<exists>p. n_parent n = Some p \<and> genNode ctx s p \<and>
           (n_id p = predx s (n_id n) \<or> n_id p = predy s (n_id n)) \<and>
           (\<not> onAxis s (n_id p) \<longrightarrow>
              n_g p = of_int (manhattan s (n_id p)) + 1 / 2 \<and>
              (\<exists>q. n_parent p = Some q \<and> dirOf q p = dirOf p n))"
proof -
  have "n_parent n \<noteq> None"
  proof
    assume "n_parent n = None"
    then have "n_id n = s" using gen_noparent[OF assms(2)] by simp
    then show False using assms(3) by (simp add: onAxis_def)
  qed
  then obtain p where p: "n_parent n = Some p" by auto
  have gp: "genNode ctx s p" and adj: "adjacent4 (n_id p) (n_id n)"
    and g: "n_g n = n_g p + 1 + turnPenalty p (n_x n) (n_y n)"
    using gen_parent[OF assms(1,2) p] by auto
  have lb: "lowerBound s (n_id p) \<le> n_g p" using gen_lowerBound[OF assms(1) gp] .
  have ge: "of_int (manhattan s (n_id p)) \<le> n_g p" using gen_g_ge_dist[OF assms(1) gp] .
  have tn: "0 \<le> turnPenalty p (n_x n) (n_y n)" by (rule turnPenalty_nonneg)
  have m: "manhattan s (n_id n) \<le> manhattan s (n_id p) + 1"
    using manhattan_adjacent[OF adj, of s] by simp
  have "(of_int (manhattan s (n_id p)) :: rat) + 1 / 2 \<le> of_int (manhattan s (n_id n))"
    using assms(4) g ge tn by linarith
  then have "(of_int (manhattan s (n_id p)) :: rat) < of_int (manhattan s (n_id n))" by linarith
  then have "manhattan s (n_id p) < manhattan s (n_id n)" using of_int_less_iff by blast
  then have dm: "manhattan s (n_id n) = manhattan s (n_id p) + 1" using m by simp
  then have dm': "(of_int (manhattan s (n_id n)) :: rat) = of_int (manhattan s (n_id p)) + 1"
    by simp
  have pc: "n_id p = predx s (n_id n) \<or> n_id p = predy s (n_id n)"
    using pred_cases[OF adj dm assms(3)] .
  have off: "\<not> onAxis s (n_id p) \<longrightarrow>
       n_g p = of_int (manhattan s (n_id p)) + 1 / 2 \<and>
       (\<exists>q. n_parent p = Some q \<and> dirOf q p = dirOf p n)"
  proof
    assume o: "\<not> onAxis s (n_id p)"
    then have "of_int (manhattan s (n_id p)) + 1 / 2 \<le> n_g p"
      using lb by (simp add: lowerBound_def)
    then have gpe: "n_g p = of_int (manhattan s (n_id p)) + 1 / 2"
      and t0: "turnPenalty p (n_x n) (n_y n) = 0"
      using assms(4) g dm' tn by linarith+
    have "n_parent p \<noteq> None"
    proof
      assume "n_parent p = None"
      then have "n_id p = s" using gen_noparent[OF gp] by simp
      then show False using o by (simp add: onAxis_def)
    qed
    then obtain q where q: "n_parent p = Some q" by auto
    have "dirOf q p = dirOf p n" using t0 q by (simp add: turnPenalty_zero dirOf_def)
    then show "n_g p = of_int (manhattan s (n_id p)) + 1 / 2 \<and>
       (\<exists>q. n_parent p = Some q \<and> dirOf q p = dirOf p n)"
      using gpe q by blast
  qed
  show ?thesis using p gp pc off by blast
qed

subsection \<open>Bookkeeping of the search\<close>

text \<open>
  The invariant of the loop, stated with two sets that the program does not store:
  \<open>P\<close>, the nodes pushed so far, and \<open>X\<close>, the nodes that have been expanded.
\<close>

definition ghostInv ::
  "SearchCtx \<Rightarrow> cell \<Rightarrow> AStarNode set \<Rightarrow> AStarNode set \<Rightarrow> AStarNode list \<times> (cell \<rightharpoonup> rat) \<Rightarrow> bool" where
  "ghostInv ctx s P X st =
     (startNodeOf s (endId ctx) \<in> P \<and>
      set (fst st) \<subseteq> P \<and> X \<subseteq> P \<and> (\<forall>n \<in> P. genNode ctx s n) \<and>
      (\<forall>n \<in> P. \<exists>v. snd st (n_id n) = Some v \<and> v \<le> n_g n) \<and>
      (\<forall>c v. snd st c = Some v \<longrightarrow> (\<exists>n \<in> P. n_id n = c \<and> n_g n = v)) \<and>
      (\<forall>n \<in> P. \<forall>m \<in> P. n_id n = n_id m \<and> n_g n = n_g m \<longrightarrow> n = m) \<and>
      (\<forall>n \<in> P. snd st (n_id n) = Some (n_g n) \<longrightarrow> n \<in> set (fst st) \<or> n \<in> X) \<and>
      (\<forall>n \<in> P. \<forall>p. n_parent n = Some p \<longrightarrow> p \<in> X) \<and>
      (\<forall>p \<in> X. n_id p \<noteq> endId ctx))"

text \<open>A neighbour of an expanded node has a recorded cost no worse than the step from it.\<close>

definition closedAt :: "SearchCtx \<Rightarrow> (cell \<rightharpoonup> rat) \<Rightarrow> AStarNode \<Rightarrow> cell \<Rightarrow> bool" where
  "closedAt ctx vis p c =
     (admissible ctx c \<longrightarrow> (\<exists>v. vis c = Some v \<and> v \<le> n_g p + moveCost ctx p (fst c) (snd c)))"

definition closure :: "SearchCtx \<Rightarrow> AStarNode set \<Rightarrow> (cell \<rightharpoonup> rat) \<Rightarrow> bool" where
  "closure ctx X vis = (\<forall>p \<in> X. \<forall>c \<in> set (neighbors p). closedAt ctx vis p c)"

definition pathInv :: "SearchCtx \<Rightarrow> cell \<Rightarrow> AStarNode list \<times> (cell \<rightharpoonup> rat) \<Rightarrow> bool" where
  "pathInv ctx s st =
     (heap_inv n_f (fst st) \<and> (\<exists>P X. ghostInv ctx s P X st \<and> closure ctx X (snd st)))"

definition visLower :: "(cell \<rightharpoonup> rat) \<Rightarrow> (cell \<rightharpoonup> rat) \<Rightarrow> bool" where
  "visLower vis' vis = (\<forall>c v. vis c = Some v \<longrightarrow> (\<exists>v'. vis' c = Some v' \<and> v' \<le> v))"

lemma visLower_refl: "visLower vis vis"
  by (simp add: visLower_def)

lemma visLower_trans: "visLower c b \<Longrightarrow> visLower b a \<Longrightarrow> visLower c a"
  unfolding visLower_def by (meson order_trans)

lemma closedAt_mono: "closedAt ctx vis p c \<Longrightarrow> visLower vis' vis \<Longrightarrow> closedAt ctx vis' p c"
  unfolding closedAt_def visLower_def by (meson order_trans)

lemma closure_mono: "closure ctx X vis \<Longrightarrow> visLower vis' vis \<Longrightarrow> closure ctx X vis'"
  unfolding closure_def using closedAt_mono by blast

lemma fold_prefix_aux:
  assumes step: "\<And>pre x st'. set pre \<subseteq> S \<Longrightarrow> x \<in> S \<Longrightarrow> Q pre st' \<Longrightarrow> Q (pre @ [x]) (f x st')"
  shows "set ns \<subseteq> S \<Longrightarrow> set pre \<subseteq> S \<Longrightarrow> Q pre st \<Longrightarrow> Q (pre @ ns) (fold f ns st)"
proof (induction ns arbitrary: pre st)
  case Nil
  then show ?case by simp
next
  case (Cons x xs)
  have "Q (pre @ [x]) (f x st)" using step[OF Cons(3) _ Cons(4)] Cons(2) by simp
  then have "Q ((pre @ [x]) @ xs) (fold f xs (f x st))"
    using Cons(1)[of "pre @ [x]" "f x st"] Cons(2,3) by simp
  then show ?case by simp
qed

lemma fold_prefix_induct:
  assumes "Q [] st"
    and "\<And>pre x st'. set pre \<subseteq> set ns \<Longrightarrow> x \<in> set ns \<Longrightarrow> Q pre st' \<Longrightarrow> Q (pre @ [x]) (f x st')"
  shows "Q ns (fold f ns st)"
  using fold_prefix_aux[where Q = Q and S = "set ns" and f = f and ns = ns and pre = "[]" and st = st]
    assms by simp

lemma visit_vis:
  "visLower (snd (visitNeighbor ctx cur c (os, vis))) vis \<and>
   closedAt ctx (snd (visitNeighbor ctx cur c (os, vis))) cur c"
proof -
  obtain nx ny where c: "c = (nx, ny)" by (cases c) auto
  let ?g = "n_g cur + moveCost ctx cur nx ny"
  show ?thesis
  proof (cases "admissible ctx (nx, ny) \<and> improves vis (nx, ny) ?g")
    case True
    then have e: "visitNeighbor ctx cur c (os, vis) =
        (push n_f os (neighborNode ctx cur nx ny), vis((nx, ny) \<mapsto> ?g))"
      unfolding c visitNeighbor_eq by simp
    have "visLower (vis((nx, ny) \<mapsto> ?g)) vis"
      unfolding visLower_def using True by (auto simp: improves_def)
    moreover have "closedAt ctx (vis((nx, ny) \<mapsto> ?g)) cur (nx, ny)"
      by (simp add: closedAt_def)
    ultimately show ?thesis using e c by simp
  next
    case False
    then have e: "visitNeighbor ctx cur c (os, vis) = (os, vis)"
      unfolding c visitNeighbor_eq by auto
    have "closedAt ctx vis cur (nx, ny)"
      unfolding closedAt_def using False by (auto simp: improves_def not_less)
    then show ?thesis using e c visLower_refl by simp
  qed
qed

lemma visit_heap_inv:
  "heap_inv n_f os \<Longrightarrow> heap_inv n_f (fst (visitNeighbor ctx cur c (os, vis)))"
  by (cases c) (simp add: visitNeighbor_eq push_inv)

lemma visit_ghost:
  assumes inv: "ghostInv ctx s P X (os, vis)" and cur: "cur \<in> X" and c: "c \<in> set (neighbors cur)"
  shows "\<exists>P'. ghostInv ctx s P' X (visitNeighbor ctx cur c (os, vis))"
proof -
  obtain nx ny where cc: "c = (nx, ny)" by (cases c) auto
  let ?g = "n_g cur + moveCost ctx cur nx ny"
  let ?m = "neighborNode ctx cur nx ny"
  show ?thesis
  proof (cases "admissible ctx (nx, ny) \<and> improves vis (nx, ny) ?g")
    case False
    then have "visitNeighbor ctx cur c (os, vis) = (os, vis)"
      unfolding cc visitNeighbor_eq by auto
    then show ?thesis using inv by auto
  next
    case True
    then have e: "visitNeighbor ctx cur c (os, vis) = (push n_f os ?m, vis((nx, ny) \<mapsto> ?g))"
      unfolding cc visitNeighbor_eq by simp
    have adm: "admissible ctx (nx, ny)" and imp: "improves vis (nx, ny) ?g" using True by auto
    from inv have
      i0: "startNodeOf s (endId ctx) \<in> P" and
      i1: "set os \<subseteq> P" "X \<subseteq> P" "\<forall>n \<in> P. genNode ctx s n" and
      i2: "\<forall>n \<in> P. \<exists>v. vis (n_id n) = Some v \<and> v \<le> n_g n" and
      i3: "\<forall>c v. vis c = Some v \<longrightarrow> (\<exists>n \<in> P. n_id n = c \<and> n_g n = v)" and
      i4: "\<forall>n \<in> P. \<forall>m \<in> P. n_id n = n_id m \<and> n_g n = n_g m \<longrightarrow> n = m" and
      i5: "\<forall>n \<in> P. vis (n_id n) = Some (n_g n) \<longrightarrow> n \<in> set os \<or> n \<in> X" and
      i6: "\<forall>n \<in> P. \<forall>p. n_parent n = Some p \<longrightarrow> p \<in> X" and
      i8: "\<forall>p \<in> X. n_id p \<noteq> endId ctx"
      unfolding ghostInv_def by simp_all
    have gcur: "genNode ctx s cur" using cur i1 by auto
    have gm: "genNode ctx s ?m"
      using gen_step[OF gcur c] adm cc by (simp add: getCellId_def)
    have old: "\<And>n. n \<in> P \<Longrightarrow> n_id n = (nx, ny) \<Longrightarrow> ?g < n_g n"
    proof -
      fix n assume "n \<in> P" "n_id n = (nx, ny)"
      then obtain v where "vis (nx, ny) = Some v" "v \<le> n_g n" using i2 by force
      then show "?g < n_g n" using imp by (auto simp: improves_def)
    qed
    let ?P = "insert ?m P"
    let ?vis = "vis((nx, ny) \<mapsto> ?g)"
    have j0: "startNodeOf s (endId ctx) \<in> ?P" using i0 by simp
    have j1: "set (push n_f os ?m) \<subseteq> ?P" "X \<subseteq> ?P" "\<forall>n \<in> ?P. genNode ctx s n"
      using i1 gm by (auto simp: set_push)
    have j2: "\<forall>n \<in> ?P. \<exists>v. ?vis (n_id n) = Some v \<and> v \<le> n_g n"
    proof
      fix n assume n: "n \<in> ?P"
      show "\<exists>v. ?vis (n_id n) = Some v \<and> v \<le> n_g n"
      proof (cases "n_id n = (nx, ny)")
        case True
        then have "?g \<le> n_g n" using n old[of n] by auto
        then show ?thesis using True by simp
      next
        case False
        then have "n \<in> P" using n by auto
        then show ?thesis using i2 False by simp
      qed
    qed
    have j3: "\<forall>c v. ?vis c = Some v \<longrightarrow> (\<exists>n \<in> ?P. n_id n = c \<and> n_g n = v)"
    proof (intro allI impI)
      fix c' v assume a: "?vis c' = Some v"
      show "\<exists>n \<in> ?P. n_id n = c' \<and> n_g n = v"
      proof (cases "c' = (nx, ny)")
        case True
        then have "v = ?g" using a by simp
        then show ?thesis using True by auto
      next
        case False
        then have "vis c' = Some v" using a by simp
        then show ?thesis using i3 by blast
      qed
    qed
    have j4: "\<forall>n \<in> ?P. \<forall>m \<in> ?P. n_id n = n_id m \<and> n_g n = n_g m \<longrightarrow> n = m"
    proof (intro ballI impI)
      fix n m assume n: "n \<in> ?P" and m: "m \<in> ?P" and eq: "n_id n = n_id m \<and> n_g n = n_g m"
      show "n = m"
      proof (cases "n = ?m")
        case True
        show ?thesis
        proof (cases "m = ?m")
          case True
          then show ?thesis using \<open>n = ?m\<close> by simp
        next
          case False
          then have "m \<in> P" using m by simp
          moreover have "n_id m = (nx, ny)" "n_g m = ?g" using eq True by auto
          ultimately show ?thesis using old[of m] by simp
        qed
      next
        case False
        then have nP: "n \<in> P" using n by simp
        show ?thesis
        proof (cases "m = ?m")
          case True
          then have "n_id n = (nx, ny)" "n_g n = ?g" using eq by auto
          then show ?thesis using old[OF nP] by simp
        next
          case False
          then have "m \<in> P" using m by simp
          then show ?thesis using i4 nP eq by blast
        qed
      qed
    qed
    have j5: "\<forall>n \<in> ?P. ?vis (n_id n) = Some (n_g n) \<longrightarrow> n \<in> set (push n_f os ?m) \<or> n \<in> X"
    proof (intro ballI impI)
      fix n assume n: "n \<in> ?P" and a: "?vis (n_id n) = Some (n_g n)"
      show "n \<in> set (push n_f os ?m) \<or> n \<in> X"
      proof (cases "n = ?m")
        case True
        then show ?thesis by (simp add: set_push)
      next
        case False
        then have nP: "n \<in> P" using n by simp
        show ?thesis
        proof (cases "n_id n = (nx, ny)")
          case True
          then have "n_g n = ?g" using a by simp
          then show ?thesis using old[OF nP True] by simp
        next
          case False
          then have "vis (n_id n) = Some (n_g n)" using a by simp
          then show ?thesis using i5 nP by (auto simp: set_push)
        qed
      qed
    qed
    have j6: "\<forall>n \<in> ?P. \<forall>p. n_parent n = Some p \<longrightarrow> p \<in> X"
      using i6 cur by auto
    have "ghostInv ctx s ?P X (push n_f os ?m, ?vis)"
      unfolding ghostInv_def fst_conv snd_conv
      using j0 j1 j2 j3 j4 j5 j6 i8 by blast
    then show ?thesis using e by auto
  qed
qed


lemma step_pathInv:
  assumes inv: "pathInv ctx s st" and step: "astarStep ctx st = Inr st'"
  shows "pathInv ctx s st'"
proof -
  obtain os vis where st: "st = (os, vis)" by (cases st) auto
  from step[unfolded st] obtain cur os1 where
    p: "pop n_f os = (Some cur, os1)" and ne: "n_id cur \<noteq> endId ctx" and
    a: "(case vis (n_id cur) of None \<Rightarrow> False | Some v \<Rightarrow> v < n_g cur) \<Longrightarrow> st' = (os1, vis)" and
    b: "\<not> (case vis (n_id cur) of None \<Rightarrow> False | Some v \<Rightarrow> v < n_g cur) \<Longrightarrow>
       st' = fold (visitNeighbor ctx cur) (neighbors cur) (os1, vis)"
    by (rule astarStep_Inr) auto
  have set: "set os = insert cur (set os1)" using pop_set[OF p] .
  have h: "heap_inv n_f os" using inv st by (simp add: pathInv_def)
  have h1: "heap_inv n_f os1" using pop_inv[OF h p] .
  obtain P X where g: "ghostInv ctx s P X (os, vis)" and cl: "closure ctx X vis"
    using inv st unfolding pathInv_def by auto
  from g have
    i0: "startNodeOf s (endId ctx) \<in> P" and
    i1: "set os \<subseteq> P" "X \<subseteq> P" "\<forall>n \<in> P. genNode ctx s n" and
    i2: "\<forall>n \<in> P. \<exists>v. vis (n_id n) = Some v \<and> v \<le> n_g n" and
    i3: "\<forall>c v. vis c = Some v \<longrightarrow> (\<exists>n \<in> P. n_id n = c \<and> n_g n = v)" and
    i4: "\<forall>n \<in> P. \<forall>m \<in> P. n_id n = n_id m \<and> n_g n = n_g m \<longrightarrow> n = m" and
    i5: "\<forall>n \<in> P. vis (n_id n) = Some (n_g n) \<longrightarrow> n \<in> set os \<or> n \<in> X" and
    i6: "\<forall>n \<in> P. \<forall>p. n_parent n = Some p \<longrightarrow> p \<in> X" and
    i8: "\<forall>p \<in> X. n_id p \<noteq> endId ctx"
    unfolding ghostInv_def by simp_all
  have curP: "cur \<in> P" using set i1 by auto
  show ?thesis
  proof (cases "case vis (n_id cur) of None \<Rightarrow> False | Some v \<Rightarrow> v < n_g cur")
    case True
    then have stale: "vis (n_id cur) \<noteq> Some (n_g cur)" by (auto split: option.splits)
    have j1: "set os1 \<subseteq> P" using set i1 by auto
    have j5: "\<forall>n \<in> P. vis (n_id n) = Some (n_g n) \<longrightarrow> n \<in> set os1 \<or> n \<in> X"
      using i5 set stale by auto
    have "ghostInv ctx s P X (os1, vis)"
      unfolding ghostInv_def fst_conv snd_conv
      using i0 j1 i1(2,3) i2 i3 i4 j5 i6 i8 by blast
    then show ?thesis using a[OF True] h1 cl unfolding pathInv_def by auto
  next
    case False
    let ?X = "insert cur X"
    have j1: "set os1 \<subseteq> P" "?X \<subseteq> P" using set i1 curP by auto
    have j5: "\<forall>n \<in> P. vis (n_id n) = Some (n_g n) \<longrightarrow> n \<in> set os1 \<or> n \<in> ?X"
      using i5 set by auto
    have j6: "\<forall>n \<in> P. \<forall>p. n_parent n = Some p \<longrightarrow> p \<in> ?X" using i6 by auto
    have j8: "\<forall>p \<in> ?X. n_id p \<noteq> endId ctx" using i8 ne by auto
    have g1: "ghostInv ctx s P ?X (os1, vis)"
      unfolding ghostInv_def fst_conv snd_conv
      using i0 j1 i1(3) i2 i3 i4 j5 j6 j8 by blast
    let ?Q = "\<lambda>pre st''. heap_inv n_f (fst st'') \<and> (\<exists>P'. ghostInv ctx s P' ?X st'') \<and>
        visLower (snd st'') vis \<and> (\<forall>c \<in> set pre. closedAt ctx (snd st'') cur c)"
    have q: "?Q (neighbors cur) (fold (visitNeighbor ctx cur) (neighbors cur) (os1, vis))"
    proof (rule fold_prefix_induct[where Q = ?Q])
      show "?Q [] (os1, vis)" using h1 g1 visLower_refl by auto
    next
      fix pre x st''
      assume x: "x \<in> set (neighbors cur)" and Q: "?Q pre st''"
      obtain os2 vis2 where s2: "st'' = (os2, vis2)" by (cases st'') auto
      obtain P' where g2: "ghostInv ctx s P' ?X (os2, vis2)" using Q s2 by auto
      have v: "visLower (snd (visitNeighbor ctx cur x (os2, vis2))) vis2"
        "closedAt ctx (snd (visitNeighbor ctx cur x (os2, vis2))) cur x"
        using visit_vis[of ctx cur x os2 vis2] by auto
      have "heap_inv n_f (fst (visitNeighbor ctx cur x (os2, vis2)))"
        using visit_heap_inv Q s2 by simp
      moreover have "\<exists>P''. ghostInv ctx s P'' ?X (visitNeighbor ctx cur x (os2, vis2))"
        using visit_ghost[OF g2 _ x] by simp
      moreover have "visLower (snd (visitNeighbor ctx cur x (os2, vis2))) vis"
        using visLower_trans[OF v(1)] Q s2 by simp
      moreover have "\<forall>c \<in> set (pre @ [x]). closedAt ctx (snd (visitNeighbor ctx cur x (os2, vis2))) cur c"
        using Q s2 v closedAt_mono by auto
      ultimately show "?Q (pre @ [x]) (visitNeighbor ctx cur x st'')" using s2 by simp
    qed
    let ?st = "fold (visitNeighbor ctx cur) (neighbors cur) (os1, vis)"
    have "closure ctx ?X (snd ?st)"
      unfolding closure_def
    proof (intro ballI)
      fix p c assume pX: "p \<in> ?X" and c: "c \<in> set (neighbors p)"
      show "closedAt ctx (snd ?st) p c"
      proof (cases "p = cur")
        case True
        then show ?thesis using q c by simp
      next
        case False
        then have "closedAt ctx vis p c" using cl pX c unfolding closure_def by auto
        then show ?thesis using closedAt_mono q by blast
      qed
    qed
    then have "pathInv ctx s ?st" unfolding pathInv_def using q by blast
    then show ?thesis using b[OF False] by simp
  qed
qed

lemma heap_inv_single: "heap_inv fk [x]"
  by (simp add: heap_inv_def)

lemma pathInv_init:
  assumes "endId ctx = e"
  shows "pathInv ctx s ([startNodeOf s e], [s \<mapsto> 0])"
proof -
  have "ghostInv ctx s {startNodeOf s e} {} ([startNodeOf s e], [s \<mapsto> 0])"
    unfolding ghostInv_def using gen_start[of ctx s] assms by simp
  moreover have "closure ctx {} [s \<mapsto> 0]" by (simp add: closure_def)
  ultimately show ?thesis unfolding pathInv_def using heap_inv_single by fastforce
qed

subsection \<open>A cheap node is always waiting in the heap\<close>

lemma between_abs:
  fixes a b x :: int
  shows "min a b \<le> x \<Longrightarrow> x \<le> max a b \<Longrightarrow> \<bar>a - x\<bar> + \<bar>x - b\<bar> = \<bar>a - b\<bar>"
  by linarith

lemma step_toward:
  fixes a b x :: int
  assumes "x \<noteq> a" "min a b \<le> x" "x \<le> max a b"
  shows "min a b \<le> x - sgn (x - a) \<and> x - sgn (x - a) \<le> max a b \<and>
         \<bar>a - (x - sgn (x - a))\<bar> = \<bar>a - x\<bar> - 1 \<and> \<bar>(x - sgn (x - a)) - x\<bar> = 1"
proof (cases "x < a")
  case True
  then have "sgn (x - a) = -1" by simp
  then show ?thesis using True assms by simp
next
  case False
  then have "a < x" using assms(1) by simp
  then have "sgn (x - a) = 1" by simp
  then show ?thesis using \<open>a < x\<close> assms by simp
qed

lemma sgn_step:
  fixes a x :: int
  assumes "x - sgn (x - a) \<noteq> a"
  shows "sgn (x - sgn (x - a) - a) = sgn (x - a)"
  using assms by (auto simp: sgn_if split: if_splits)

lemma box_dist:
  assumes "c \<in> box s e"
  shows "manhattan s c + manhattan c e = manhattan s e"
proof -
  have "\<bar>fst s - fst c\<bar> + \<bar>fst c - fst e\<bar> = \<bar>fst s - fst e\<bar>"
    using assms unfolding box_def by (intro between_abs) auto
  moreover have "\<bar>snd s - snd c\<bar> + \<bar>snd c - snd e\<bar> = \<bar>snd s - snd e\<bar>"
    using assms unfolding box_def by (intro between_abs) auto
  ultimately show ?thesis unfolding manhattan_def by simp
qed

lemma box_start: "s \<in> box s e" and box_goal: "e \<in> box s e"
  unfolding box_def by auto

lemma box_predx:
  assumes "c \<in> box s e" "fst c \<noteq> fst s"
  shows "predx s c \<in> box s e \<and> manhattan s (predx s c) = manhattan s c - 1 \<and>
         adjacent4 (predx s c) c"
proof -
  have "min (fst s) (fst e) \<le> fst c" "fst c \<le> max (fst s) (fst e)"
    using assms(1) unfolding box_def by auto
  from step_toward[OF assms(2) this]
  show ?thesis using assms(1) unfolding box_def predx_def manhattan_def adjacent4_def by simp
qed

lemma box_predy:
  assumes "c \<in> box s e" "snd c \<noteq> snd s"
  shows "predy s c \<in> box s e \<and> manhattan s (predy s c) = manhattan s c - 1 \<and>
         adjacent4 (predy s c) c"
proof -
  have "min (snd s) (snd e) \<le> snd c" "snd c \<le> max (snd s) (snd e)"
    using assms(1) unfolding box_def by auto
  from step_toward[OF assms(2) this]
  show ?thesis using assms(1) unfolding box_def predy_def manhattan_def adjacent4_def by simp
qed

lemma adjacent_neighbors:
  assumes "n_id n = (n_x n, n_y n)" "adjacent4 (n_id n) c"
  shows "c \<in> set (neighbors n)"
proof -
  obtain cx cy where c: "c = (cx, cy)" by (cases c) auto
  have "\<bar>n_x n - cx\<bar> + \<bar>n_y n - cy\<bar> = 1" using assms unfolding adjacent4_def c by simp
  then have "(cx = n_x n \<and> cy = n_y n - 1) \<or> (cx = n_x n \<and> cy = n_y n + 1) \<or>
      (cx = n_x n - 1 \<and> cy = n_y n) \<or> (cx = n_x n + 1 \<and> cy = n_y n)"
    by linarith
  then show ?thesis unfolding neighbors_def c by auto
qed

lemma turnPenalty_Some:
  "n_parent p = Some q \<Longrightarrow>
   turnPenalty p nx ny = (if (nx - n_x p, ny - n_y p) = dirOf q p then 0 else 1 / 2)"
  by (auto simp: turnPenalty_def dirOf_def)

lemma turnPenalty_None: "n_parent p = None \<Longrightarrow> turnPenalty p nx ny = 0"
  by (simp add: turnPenalty_def)


lemma straight_turn:
  assumes "freeCtx ctx s" "genNode ctx s na" "n_g na = of_int (manhattan s (n_id na))"
  shows "turnPenalty na nx ny =
     (if n_id na = s \<or> (nx - fst (n_id na), ny - snd (n_id na)) = axisDir s (n_id na)
      then 0 else 1 / 2)"
proof -
  have idn: "n_id na = (n_x na, n_y na)" using genNode_id_free[OF assms(1) assms(2)] .
  have st: "n_parent na = None \<longrightarrow> n_id na = s"
    "\<forall>p. n_parent na = Some p \<longrightarrow> n_id na \<noteq> s \<and> dirOf p na = axisDir s (n_id na)"
    using gen_straight[OF assms(1,2)] assms(3) by auto
  show ?thesis
  proof (cases "n_parent na")
    case None
    then show ?thesis using st(1) by (simp add: turnPenalty_None)
  next
    case (Some p)
    then have "n_id na \<noteq> s" "dirOf p na = axisDir s (n_id na)" using st(2) by auto
    then show ?thesis using turnPenalty_Some[OF Some] idn by simp
  qed
qed

lemma half_turn:
  assumes "freeCtx ctx s" "genNode ctx s na" "\<not> onAxis s (n_id na)"
    and "n_g na = of_int (manhattan s (n_id na)) + 1 / 2"
  shows "\<exists>pa. n_parent na = Some pa \<and>
           (n_id pa = predx s (n_id na) \<or> n_id pa = predy s (n_id na)) \<and>
           (\<forall>nx ny. turnPenalty na nx ny =
              (if (nx - fst (n_id na), ny - snd (n_id na)) =
                  (fst (n_id na) - fst (n_id pa), snd (n_id na) - snd (n_id pa))
               then 0 else 1 / 2)) \<and>
           (\<not> onAxis s (n_id pa) \<longrightarrow>
              n_g pa = of_int (manhattan s (n_id pa)) + 1 / 2 \<and>
              (\<exists>q. n_parent pa = Some q \<and>
                 dirOf q pa = (fst (n_id na) - fst (n_id pa), snd (n_id na) - snd (n_id pa))))"
proof -
  obtain pa where pa: "n_parent na = Some pa" "genNode ctx s pa"
    "n_id pa = predx s (n_id na) \<or> n_id pa = predy s (n_id na)"
    "\<not> onAxis s (n_id pa) \<longrightarrow>
       n_g pa = of_int (manhattan s (n_id pa)) + 1 / 2 \<and>
       (\<exists>q. n_parent pa = Some q \<and> dirOf q pa = dirOf pa na)"
    using gen_half[OF assms] by blast
  have idn: "n_id na = (n_x na, n_y na)" using genNode_id_free[OF assms(1) assms(2)] .
  have idp: "n_id pa = (n_x pa, n_y pa)" using genNode_id_free[OF assms(1) pa(2)] .
  have d: "dirOf pa na = (fst (n_id na) - fst (n_id pa), snd (n_id na) - snd (n_id pa))"
    unfolding dirOf_def idn idp by simp
  have "\<forall>nx ny. turnPenalty na nx ny =
      (if (nx - fst (n_id na), ny - snd (n_id na)) =
          (fst (n_id na) - fst (n_id pa), snd (n_id na) - snd (n_id pa))
       then 0 else 1 / 2)"
    using turnPenalty_Some[OF pa(1)] d idn by simp
  then show ?thesis using pa d by auto
qed

text \<open>
  While the goal has not been taken from the heap, the heap holds a node whose estimate
  \<open>f\<close> is at most the distance between start and goal plus one half.  Otherwise every
  cell of the bounding box, the goal included, would already have been expanded with its
  least possible cost: this is shown cell by cell, in the order of the distance from the
  start.
\<close>

lemma open_good:
  assumes free: "freeCtx ctx s"
    and boxT: "\<forall>c \<in> box s (endId ctx). traversable ctx c"
    and inv: "ghostInv ctx s P X (os, vis)" and cl: "closure ctx X vis"
  shows "\<exists>m \<in> set os. n_f m \<le> of_int (manhattan s (endId ctx)) + 1 / 2"
proof (rule ccontr)
  let ?e = "endId ctx"
  let ?d = "manhattan s ?e"
  assume "\<not> (\<exists>m \<in> set os. n_f m \<le> of_int ?d + 1 / 2)"
  then have noOpen: "\<And>m. m \<in> set os \<Longrightarrow> \<not> n_f m \<le> of_int ?d + 1 / 2" by blast
  from inv have
    i0: "startNodeOf s ?e \<in> P" and
    i1: "set os \<subseteq> P" "X \<subseteq> P" "\<forall>n \<in> P. genNode ctx s n" and
    i2: "\<forall>n \<in> P. \<exists>v. vis (n_id n) = Some v \<and> v \<le> n_g n" and
    i3: "\<forall>c v. vis c = Some v \<longrightarrow> (\<exists>n \<in> P. n_id n = c \<and> n_g n = v)" and
    i4: "\<forall>n \<in> P. \<forall>m \<in> P. n_id n = n_id m \<and> n_g n = n_g m \<longrightarrow> n = m" and
    i5: "\<forall>n \<in> P. vis (n_id n) = Some (n_g n) \<longrightarrow> n \<in> set os \<or> n \<in> X" and
    i6: "\<forall>n \<in> P. \<forall>p. n_parent n = Some p \<longrightarrow> p \<in> X" and
    i8: "\<forall>p \<in> X. n_id p \<noteq> ?e"
    unfolding ghostInv_def by simp_all
  have genX: "\<And>n. n \<in> X \<Longrightarrow> genNode ctx s n" using i1 by auto
  have lbP: "\<And>n. n \<in> P \<Longrightarrow> lowerBound s (n_id n) \<le> n_g n"
    using gen_lowerBound[OF free] i1 by auto
  have lb_le: "\<And>c. lowerBound s c \<le> of_int (manhattan s c) + 1 / 2"
    by (simp add: lowerBound_def)

  have good_closed: "\<exists>n \<in> X. n_id n = c \<and> n_g n = lowerBound s c"
    if c: "c \<in> box s ?e" and v: "vis c = Some (lowerBound s c)" for c
  proof -
    obtain n where n: "n \<in> P" "n_id n = c" "n_g n = lowerBound s c" using i3 v by blast
    have "n \<notin> set os"
    proof
      assume m: "n \<in> set os"
      have hf: "n_h n = of_int (manhattan c ?e)" "n_f n = n_g n + n_h n"
        using gen_hf[OF free, of n] i1 n by auto
      have "(of_int (manhattan s c) :: rat) + of_int (manhattan c ?e) = of_int ?d"
        using box_dist[OF c] by (metis of_int_add)
      then have "n_f n \<le> of_int ?d + 1 / 2" using hf n(3) lb_le[of c] by linarith
      then show False using noOpen[OF m] by simp
    qed
    then have "n \<in> X" using i5 n v by auto
    then show ?thesis using n by blast
  qed

  have reach: "vis c = Some (lowerBound s c)"
    if na: "na \<in> X" and adj: "adjacent4 (n_id na) c" and c: "c \<in> box s ?e"
      and cost: "n_g na + 1 + turnPenalty na (fst c) (snd c) \<le> lowerBound s c" for na c
  proof -
    have idn: "n_id na = (n_x na, n_y na)" using genNode_id_free[OF free genX[OF na]] .
    have cn: "c \<in> set (neighbors na)" using adjacent_neighbors[OF idn adj] .
    have "admissible ctx c" using boxT c free_admissible[OF free] by simp
    then obtain v where v: "vis c = Some v" "v \<le> n_g na + moveCost ctx na (fst c) (snd c)"
      using cl na cn unfolding closure_def closedAt_def by blast
    then have le: "v \<le> lowerBound s c" using cost by (simp add: free_moveCost[OF free])
    obtain n where "n \<in> P" "n_id n = c" "n_g n = v" using i3 v(1) by blast
    then have "lowerBound s c \<le> v" using lbP by auto
    then show ?thesis using v(1) le by simp
  qed

  have all: "\<forall>c \<in> box s ?e. manhattan s c = int k \<longrightarrow>
      (\<exists>n \<in> X. n_id n = c \<and> n_g n = lowerBound s c)" for k
  proof (induction k)
    case 0
    show ?case
    proof (intro ballI impI)
      fix c assume c: "c \<in> box s ?e" and k: "manhattan s c = int 0"
      then have cs: "c = s" using manhattan_zero by simp
      obtain v where v: "vis s = Some v" "v \<le> 0" using i2 i0 by force
      obtain n where "n \<in> P" "n_id n = s" "n_g n = v" using i3 v(1) by blast
      then have "0 \<le> v" using genNode_g_nonneg i1 by blast
      then have "vis s = Some (lowerBound s s)"
        using v by (simp add: lowerBound_def onAxis_def)
      then show "\<exists>n \<in> X. n_id n = c \<and> n_g n = lowerBound s c"
        using good_closed[of s] c cs by simp
    qed
  next
    case (Suc k)
    show ?case
    proof (intro ballI impI)
      fix c assume c: "c \<in> box s ?e" and k: "manhattan s c = int (Suc k)"
      have IH: "\<And>a. a \<in> box s ?e \<Longrightarrow> manhattan s a = manhattan s c - 1 \<Longrightarrow>
          \<exists>n \<in> X. n_id n = a \<and> n_g n = lowerBound s a"
        using Suc k by simp
      have cs: "c \<noteq> s" using k manhattan_zero[of s c] by auto
      \<comment> \<open>the two ways of stepping back towards the start\<close>
      have stepx: "vis c = Some (lowerBound s c)"
        if xs: "fst c \<noteq> fst s"
          and ok: "\<And>na. na \<in> X \<Longrightarrow> n_id na = predx s c \<Longrightarrow> n_g na = lowerBound s (predx s c) \<Longrightarrow>
                 n_g na + 1 + turnPenalty na (fst c) (snd c) \<le> lowerBound s c"
      proof -
        have px: "predx s c \<in> box s ?e" "manhattan s (predx s c) = manhattan s c - 1"
          "adjacent4 (predx s c) c"
          using box_predx[OF c xs] by auto
        obtain na where na: "na \<in> X" "n_id na = predx s c" "n_g na = lowerBound s (predx s c)"
          using IH[OF px(1,2)] by blast
        show ?thesis using reach[OF na(1) _ c ok[OF na]] px(3) na(2) by simp
      qed
      have stepy: "vis c = Some (lowerBound s c)"
        if ys: "snd c \<noteq> snd s"
          and ok: "\<And>na. na \<in> X \<Longrightarrow> n_id na = predy s c \<Longrightarrow> n_g na = lowerBound s (predy s c) \<Longrightarrow>
                 n_g na + 1 + turnPenalty na (fst c) (snd c) \<le> lowerBound s c"
      proof -
        have py: "predy s c \<in> box s ?e" "manhattan s (predy s c) = manhattan s c - 1"
          "adjacent4 (predy s c) c"
          using box_predy[OF c ys] by auto
        obtain na where na: "na \<in> X" "n_id na = predy s c" "n_g na = lowerBound s (predy s c)"
          using IH[OF py(1,2)] by blast
        show ?thesis using reach[OF na(1) _ c ok[OF na]] py(3) na(2) by simp
      qed
      obtain cx cy sx sy where cc: "c = (cx, cy)" and ss: "s = (sx, sy)"
        by (cases c, cases s) auto
      have ds: "\<And>a. manhattan s a = manhattan s c - 1 \<Longrightarrow>
          (of_int (manhattan s a) :: rat) + 1 = of_int (manhattan s c)"
        by simp
      have "vis c = Some (lowerBound s c)"
      proof (cases "onAxis s c")
        case True
        then have lc: "lowerBound s c = of_int (manhattan s c)" by (simp add: lowerBound_def)
        show ?thesis
        proof (cases "fst c \<noteq> fst s")
          case xs: True
          then have ys: "snd c = snd s" using True by (simp add: onAxis_def)
          show ?thesis
          proof (rule stepx[OF xs])
            fix na assume na: "na \<in> X" "n_id na = predx s c" "n_g na = lowerBound s (predx s c)"
            have ax: "onAxis s (predx s c)" using ys by (simp add: onAxis_def predx_def)
            then have g: "n_g na = of_int (manhattan s (n_id na))"
              using na by (simp add: lowerBound_def)
            have m: "manhattan s (predx s c) = manhattan s c - 1" using box_predx[OF c xs] by simp
            have "n_id na = s \<or> (fst c - fst (n_id na), snd c - snd (n_id na)) = axisDir s (n_id na)"
            proof (cases "cx - sgn (cx - sx) = sx")
              case True
              then show ?thesis using ys unfolding na(2) predx_def cc ss by simp
            next
              case False
              then show ?thesis
                using ys sgn_step[OF False] unfolding na(2) predx_def axisDir_def cc ss by simp
            qed
            then have "turnPenalty na (fst c) (snd c) = 0"
              using straight_turn[OF free genX[OF na(1)] g] by simp
            then show "n_g na + 1 + turnPenalty na (fst c) (snd c) \<le> lowerBound s c"
              using g na(2) ds[OF m] lc by simp
          qed
        next
          case False
          then have xs: "fst c = fst s" by simp
          then have ys: "snd c \<noteq> snd s" using cs by (cases c, cases s) auto
          show ?thesis
          proof (rule stepy[OF ys])
            fix na assume na: "na \<in> X" "n_id na = predy s c" "n_g na = lowerBound s (predy s c)"
            have ax: "onAxis s (predy s c)" using xs by (simp add: onAxis_def predy_def)
            then have g: "n_g na = of_int (manhattan s (n_id na))"
              using na by (simp add: lowerBound_def)
            have m: "manhattan s (predy s c) = manhattan s c - 1" using box_predy[OF c ys] by simp
            have "n_id na = s \<or> (fst c - fst (n_id na), snd c - snd (n_id na)) = axisDir s (n_id na)"
            proof (cases "cy - sgn (cy - sy) = sy")
              case True
              then show ?thesis using xs unfolding na(2) predy_def cc ss by simp
            next
              case False
              then show ?thesis
                using xs sgn_step[OF False] unfolding na(2) predy_def axisDir_def cc ss by simp
            qed
            then have "turnPenalty na (fst c) (snd c) = 0"
              using straight_turn[OF free genX[OF na(1)] g] by simp
            then show "n_g na + 1 + turnPenalty na (fst c) (snd c) \<le> lowerBound s c"
              using g na(2) ds[OF m] lc by simp
          qed
        qed
      next
        case off: False
        then have xs: "fst c \<noteq> fst s" and ys: "snd c \<noteq> snd s" by (auto simp: onAxis_def)
        have lc: "lowerBound s c = of_int (manhattan s c) + 1 / 2"
          using off by (simp add: lowerBound_def)
        have px: "predx s c \<in> box s ?e" "manhattan s (predx s c) = manhattan s c - 1"
          "adjacent4 (predx s c) c"
          using box_predx[OF c xs] by auto
        have py: "predy s c \<in> box s ?e" "manhattan s (predy s c) = manhattan s c - 1"
          "adjacent4 (predy s c) c"
          using box_predy[OF c ys] by auto
        show ?thesis
        proof (cases "onAxis s (predx s c)")
          case True
          show ?thesis
          proof (rule stepx[OF xs])
            fix na assume na: "na \<in> X" "n_id na = predx s c" "n_g na = lowerBound s (predx s c)"
            have g: "n_g na = of_int (manhattan s (n_id na))"
              using na True by (simp add: lowerBound_def)
            have "turnPenalty na (fst c) (snd c) \<le> 1 / 2"
              using turnPenalty_cases[of na "fst c" "snd c"] by auto
            then show "n_g na + 1 + turnPenalty na (fst c) (snd c) \<le> lowerBound s c"
              using g na(2) ds[OF px(2)] lc by simp
          qed
        next
          case offa: False
          show ?thesis
          proof (cases "onAxis s (predy s c)")
            case True
            show ?thesis
            proof (rule stepy[OF ys])
              fix na assume na: "na \<in> X" "n_id na = predy s c" "n_g na = lowerBound s (predy s c)"
              have g: "n_g na = of_int (manhattan s (n_id na))"
                using na True by (simp add: lowerBound_def)
              have "turnPenalty na (fst c) (snd c) \<le> 1 / 2"
                using turnPenalty_cases[of na "fst c" "snd c"] by auto
              then show "n_g na + 1 + turnPenalty na (fst c) (snd c) \<le> lowerBound s c"
                using g na(2) ds[OF py(2)] lc by simp
            qed
          next
            case offb: False
            obtain na where na: "na \<in> X" "n_id na = predx s c" "n_g na = lowerBound s (predx s c)"
              using IH[OF px(1,2)] by blast
            obtain nb where nb: "nb \<in> X" "n_id nb = predy s c" "n_g nb = lowerBound s (predy s c)"
              using IH[OF py(1,2)] by blast
            have ga: "n_g na = of_int (manhattan s (n_id na)) + 1 / 2"
              using na offa by (simp add: lowerBound_def)
            have gb: "n_g nb = of_int (manhattan s (n_id nb)) + 1 / 2"
              using nb offb by (simp add: lowerBound_def)
            obtain pa where pa: "n_parent na = Some pa"
              "n_id pa = predx s (n_id na) \<or> n_id pa = predy s (n_id na)"
              "\<forall>nx ny. turnPenalty na nx ny =
                 (if (nx - fst (n_id na), ny - snd (n_id na)) =
                     (fst (n_id na) - fst (n_id pa), snd (n_id na) - snd (n_id pa))
                  then 0 else 1 / 2)"
              "\<not> onAxis s (n_id pa) \<longrightarrow>
                 n_g pa = of_int (manhattan s (n_id pa)) + 1 / 2 \<and>
                 (\<exists>q. n_parent pa = Some q \<and>
                    dirOf q pa = (fst (n_id na) - fst (n_id pa), snd (n_id na) - snd (n_id pa)))"
              using half_turn[OF free genX[OF na(1)] _ ga] offa na(2) by auto
            obtain pb where pb: "n_parent nb = Some pb"
              "n_id pb = predx s (n_id nb) \<or> n_id pb = predy s (n_id nb)"
              "\<forall>nx ny. turnPenalty nb nx ny =
                 (if (nx - fst (n_id nb), ny - snd (n_id nb)) =
                     (fst (n_id nb) - fst (n_id pb), snd (n_id nb) - snd (n_id pb))
                  then 0 else 1 / 2)"
              "\<not> onAxis s (n_id pb) \<longrightarrow>
                 n_g pb = of_int (manhattan s (n_id pb)) + 1 / 2 \<and>
                 (\<exists>q. n_parent pb = Some q \<and>
                    dirOf q pb = (fst (n_id nb) - fst (n_id pb), snd (n_id nb) - snd (n_id pb)))"
              using half_turn[OF free genX[OF nb(1)] _ gb] offb nb(2) by auto
            have xa: "cx - sgn (cx - sx) \<noteq> sx" and yb: "cy - sgn (cy - sy) \<noteq> sy"
              using offa offb ys xs unfolding onAxis_def predx_def predy_def cc ss by auto
            show ?thesis
            proof (cases "n_id pa = predx s (n_id na)")
              case True
              have "(fst c - fst (n_id na), snd c - snd (n_id na)) =
                  (fst (n_id na) - fst (n_id pa), snd (n_id na) - snd (n_id pa))"
                using sgn_step[OF xa] unfolding True na(2) predx_def cc ss by simp
              then have "turnPenalty na (fst c) (snd c) = 0" using pa(3) by simp
              then have "n_g na + 1 + turnPenalty na (fst c) (snd c) \<le> lowerBound s c"
                using ga na(2) ds[OF px(2)] lc by simp
              then show ?thesis using reach[OF na(1) _ c] px(3) na(2) by simp
            next
              case nota: False
              show ?thesis
              proof (cases "n_id pb = predy s (n_id nb)")
                case True
                have "(fst c - fst (n_id nb), snd c - snd (n_id nb)) =
                    (fst (n_id nb) - fst (n_id pb), snd (n_id nb) - snd (n_id pb))"
                  using sgn_step[OF yb] unfolding True nb(2) predy_def cc ss by simp
                then have "turnPenalty nb (fst c) (snd c) = 0" using pb(3) by simp
                then have "n_g nb + 1 + turnPenalty nb (fst c) (snd c) \<le> lowerBound s c"
                  using gb nb(2) ds[OF py(2)] lc by simp
                then show ?thesis using reach[OF nb(1) _ c] py(3) nb(2) by simp
              next
                case notb: False
                have qa: "n_id pa = predy s (predx s c)" using pa(2) nota na(2) by simp
                have qb: "n_id pb = predx s (predy s c)" using pb(2) notb nb(2) by simp
                have same: "n_id pa = n_id pb"
                  unfolding qa qb predx_def predy_def by simp
                have offq: "\<not> onAxis s (n_id pa)"
                  using xa yb unfolding qa onAxis_def predx_def predy_def cc ss by simp
                then have fa: "n_g pa = of_int (manhattan s (n_id pa)) + 1 / 2"
                  "\<exists>q. n_parent pa = Some q \<and>
                     dirOf q pa = (fst (n_id na) - fst (n_id pa), snd (n_id na) - snd (n_id pa))"
                  using pa(4) by auto
                have fb: "n_g pb = of_int (manhattan s (n_id pb)) + 1 / 2"
                  "\<exists>q. n_parent pb = Some q \<and>
                     dirOf q pb = (fst (n_id nb) - fst (n_id pb), snd (n_id nb) - snd (n_id pb))"
                  using pb(4) offq same by auto
                have "pa \<in> P" "pb \<in> P" using i6 i1 na(1) nb(1) pa(1) pb(1) by blast+
                then have "pa = pb" using i4 same fa(1) fb(1) by auto
                then have "(fst (n_id na) - fst (n_id pa), snd (n_id na) - snd (n_id pa)) =
                    (fst (n_id nb) - fst (n_id pb), snd (n_id nb) - snd (n_id pb))"
                  using fa(2) fb(2) by auto
                then have False
                  using xs ys unfolding na(2) nb(2) qa qb predx_def predy_def cc ss
                  by (auto simp: sgn_if split: if_splits)
                then show ?thesis ..
              qed
            qed
          qed
        qed
      qed
      then show "\<exists>n \<in> X. n_id n = c \<and> n_g n = lowerBound s c"
        using good_closed[OF c] by simp
    qed
  qed
  have d0: "0 \<le> ?d" by (simp add: manhattan_def)
  then obtain k where "?d = int k" using nonneg_int_cases by blast
  then obtain n where "n \<in> X" "n_id n = ?e" using all[of k] box_goal[of ?e s] by blast
  then show False using i8 by blast
qed

subsection \<open>The result of the search\<close>

lemma trainCells_Nil [simp]: "trainCells [] ign = ({}, {})"
  by (simp add: trainCells_def)

lemma freeCtx_searchCtx:
  "parseCellId s = s \<Longrightarrow> parseCellId e = e \<Longrightarrow> freeCtx (searchCtx e grid [] ign None strict) s"
  by (simp add: freeCtx_def)

lemma free_search_result:
  assumes fin: "finite (dom grid)" and gs: "grid s \<noteq> None" and ge: "grid e \<noteq> None"
    and ps: "parseCellId s = s" and pe: "parseCellId e = e"
    and boxT: "\<forall>c \<in> box s e. \<exists>cl. grid c = Some cl \<and> (c_type cl = Track \<or> c_type cl = Station)"
  shows "\<exists>p. findPathAStar s e grid [] ign None strict = Some (Some p) \<and>
           int (length p) = manhattan s e + 1 \<and> hd p = s \<and> last p = e \<and>
           (\<forall>i. Suc i < length p \<longrightarrow> adjacent4 (p ! i) (p ! Suc i))"
proof -
  let ?ctx = "searchCtx e grid [] ign None strict"
  let ?Q = "\<lambda>r. \<exists>p. r = Some p \<and> int (length p) = manhattan s e + 1 \<and> hd p = s \<and> last p = e \<and>
      (\<forall>i. Suc i < length p \<longrightarrow> adjacent4 (p ! i) (p ! Suc i))"
  have free: "freeCtx ?ctx s" by (rule freeCtx_searchCtx[OF ps pe])
  have fin': "finite (dom (currentGrid ?ctx))" using fin by simp
  have bT: "\<forall>c \<in> box s (endId ?ctx). traversable ?ctx c"
  proof
    fix c assume "c \<in> box s (endId ?ctx)"
    then have "c \<in> box s e" by simp
    then obtain cl where "grid c = Some cl" "c_type cl = Track \<or> c_type cl = Station"
      using boxT by blast
    then show "traversable ?ctx c" by (simp add: traversable_def)
  qed
  have "\<exists>r. astarLoop ?ctx ([startNodeOf s e], [s \<mapsto> 0]) = Some r \<and> ?Q r"
  proof (rule astarLoop_total[where R = "searchOrder ?ctx s"
        and I = "\<lambda>st. searchInv ?ctx s st \<and> pathInv ?ctx s st" and Q = ?Q])
    show "wf (searchOrder ?ctx s)" by (rule wf_searchOrder)
  next
    show "searchInv ?ctx s ([startNodeOf s e], [s \<mapsto> 0]) \<and>
        pathInv ?ctx s ([startNodeOf s e], [s \<mapsto> 0])"
    proof
      show "searchInv ?ctx s ([startNodeOf s e], [s \<mapsto> 0])" by (rule searchInv_init)
      show "pathInv ?ctx s ([startNodeOf s e], [s \<mapsto> 0])" by (rule pathInv_init) simp
    qed
  next
    fix st st'
    assume a: "searchInv ?ctx s st \<and> pathInv ?ctx s st" and b: "astarStep ?ctx st = Inr st'"
    have a1: "searchInv ?ctx s st" and a2: "pathInv ?ctx s st" using a by blast+
    have "searchInv ?ctx s st' \<and> (st', st) \<in> searchOrder ?ctx s"
      by (rule step_searchInv[OF fin' a1 b])
    moreover have "pathInv ?ctx s st'" by (rule step_pathInv[OF a2 b])
    ultimately show "(searchInv ?ctx s st' \<and> pathInv ?ctx s st') \<and> (st', st) \<in> searchOrder ?ctx s"
      by blast
  next
    fix st r
    assume I: "searchInv ?ctx s st \<and> pathInv ?ctx s st" and ex: "astarStep ?ctx st = Inl r"
    obtain os vis where st: "st = (os, vis)" by (cases st) auto
    have pI: "pathInv ?ctx s (os, vis)" using I st by blast
    have h: "heap_inv n_f os" using pI unfolding pathInv_def by simp
    obtain P X where g: "ghostInv ?ctx s P X (os, vis)" and cl: "closure ?ctx X vis"
      using pI unfolding pathInv_def snd_conv by blast
    have "\<exists>m \<in> set os. n_f m \<le> of_int (manhattan s (endId ?ctx)) + 1 / 2"
      by (rule open_good[OF free bT g cl])
    then obtain m where m: "m \<in> set os" "n_f m \<le> of_int (manhattan s e) + 1 / 2"
      unfolding searchCtx_simps by blast
    have ne: "os \<noteq> []" using m(1) by auto
    have ex': "astarStep ?ctx (os, vis) = Inl r" using ex st by simp
    obtain cur os1 where p: "pop n_f os = (Some cur, os1)" "n_id cur = endId ?ctx"
      "r = Some (reconstructPath cur)"
      using astarStep_Inl[OF ex'] ne by blast
    have ide: "n_id cur = e" using p(2) by simp
    have cs: "cur \<in> set os" using pop_set[OF p(1)] by simp
    have "set os \<subseteq> P" "\<forall>n \<in> P. genNode ?ctx s n"
      using g unfolding ghostInv_def fst_conv by blast+
    then have gen: "genNode ?ctx s cur" using cs by blast
    have "\<forall>x \<in> set os. n_f cur \<le> n_f x" by (rule pop_min[OF h p(1)])
    then have "n_f cur \<le> n_f m" using m(1) by blast
    then have f: "n_f cur \<le> of_int (manhattan s e) + 1 / 2" using m(2) by (rule order_trans)
    have hf: "n_h cur = of_int (manhattan (n_id cur) (endId ?ctx))" "n_f cur = n_g cur + n_h cur"
      using gen_hf[OF free gen] by blast+
    have "n_h cur = 0" unfolding hf(1) p(2) by simp
    then have "n_f cur = n_g cur" using hf(2) by simp
    then have gle: "n_g cur \<le> of_int (manhattan s e) + 1 / 2" using f by simp
    let ?p = "reconstructPath cur"
    have len: "of_nat (length ?p - 1) \<le> n_g cur" "manhattan s (n_id cur) \<le> int (length ?p) - 1"
      using gen_len[OF free gen] by blast+
    have len2: "manhattan s e \<le> int (length ?p) - 1" using len(2) unfolding ide .
    have path: "?p \<noteq> []" "hd ?p = s" "last ?p = n_id cur" "successively (routeStep ?ctx) ?p"
      using genNode_path[OF gen] genNode_route[OF gen ps] by blast+
    have l1: "int (length ?p) - 1 = int (length ?p - 1)" using path(1) by (cases ?p) auto
    have "(of_nat (length ?p - 1) :: rat) \<le> of_int (manhattan s e) + 1 / 2"
      using len(1) gle by (rule order_trans)
    then have "(of_int (int (length ?p - 1)) :: rat) < of_int (manhattan s e + 1)"
      by simp
    then have "int (length ?p - 1) < manhattan s e + 1" by (simp only: of_int_less_iff)
    then have le: "int (length ?p) = manhattan s e + 1" using len2 l1 by linarith
    have "\<And>a b. routeStep ?ctx a b \<Longrightarrow> adjacent4 a b" by (simp add: routeStep_def)
    then have "successively adjacent4 ?p"
      using successively_mono[OF path(4), of adjacent4] by blast
    then have adj: "\<forall>i. Suc i < length ?p \<longrightarrow> adjacent4 (?p ! i) (?p ! Suc i)"
      using successively_nth by blast
    have "int (length ?p) = manhattan s e + 1 \<and> hd ?p = s \<and> last ?p = e \<and>
      (\<forall>i. Suc i < length ?p \<longrightarrow> adjacent4 (?p ! i) (?p ! Suc i))"
      using le path(2) path(3) ide adj by simp
    then show "?Q r" unfolding p(3) by (intro exI[of _ ?p] conjI) simp_all
  qed
  then show ?thesis unfolding findPathAStar_unfold[OF gs ge] by blast
qed




end
